theory Spec2Isabelle
  imports Complex_Main
begin

section \<open>Python values shared by both modules\<close>

text \<open>
  Exceptions of the Python run time that the modelled code can raise. A function of the
  source that can raise returns \<open>error + 'a\<close>, with \<open>Inl\<close> for the exception.
\<close>

datatype error = TypeError | IndexError | ZeroDivisionError | RuntimeError | ValueError

text \<open>Sequencing of two fallible computations: the first exception wins.\<close>

definition rbind :: "error + 'a \<Rightarrow> ('a \<Rightarrow> error + 'b) \<Rightarrow> error + 'b" where
  "rbind m f = (case m of Inl e \<Rightarrow> Inl e | Inr x \<Rightarrow> f x)"

text \<open>
  \<^verbatim>\<open>min(*values)\<close> and \<^verbatim>\<open>max(*values)\<close> on a list of numbers: with no argument
  and with a single number argument Python raises TypeError (a number is not iterable);
  with two or more it returns the least (greatest) of them.
\<close>

definition min_star :: "rat list \<Rightarrow> error + rat" where
  "min_star vs = (if length vs < 2 then Inl TypeError else Inr (fold min (tl vs) (hd vs)))"

definition max_star :: "rat list \<Rightarrow> error + rat" where
  "max_star vs = (if length vs < 2 then Inl TypeError else Inr (fold max (tl vs) (hd vs)))"

section \<open>vertical_keyworded_toc.py: the outline model\<close>

text \<open>
  A search result of the scanner: page, block and paragraph index and the vertices of the
  bounding box, each an (x, y) pair.
\<close>

record search_result =
  page :: int
  block :: int
  "paragraph" :: int
  bounds :: "(rat \<times> rat) list"

text \<open>The four subclasses of \<^verbatim>\<open>ContentsItem\<close>.\<close>

datatype item_class = TableOfContents | Part | Chapter | Section

text \<open>
  \<^verbatim>\<open>ContentsItem\<close>: the class of the object, its search result, its number (\<open>None\<close>
  is Python's None) and its children. The fields \<^verbatim>\<open>title\<close> and \<^verbatim>\<open>description\<close>
  are None throughout the module and are left out.
\<close>

datatype contents_item =
  ContentsItem (cls: item_class) (result: search_result) (number: "int option")
    (children: "contents_item list")

definition item_page :: "contents_item \<Rightarrow> int" where
  "item_page it = page (result it)"

definition item_block :: "contents_item \<Rightarrow> int" where
  "item_block it = block (result it)"

definition item_paragraph :: "contents_item \<Rightarrow> int" where
  "item_paragraph it = paragraph (result it)"

definition min_y :: "contents_item \<Rightarrow> error + rat" where
  "min_y it = min_star (map snd (bounds (result it)))"

definition max_y :: "contents_item \<Rightarrow> error + rat" where
  "max_y it = max_star (map snd (bounds (result it)))"

text \<open>\<^verbatim>\<open>not content_item.number\<close>: None and 0 are the falsy numbers.\<close>

definition not_number :: "int option \<Rightarrow> bool" where
  "not_number n = (case n of None \<Rightarrow> True | Some k \<Rightarrow> k = 0)"

definition set_number :: "contents_item \<Rightarrow> int option \<Rightarrow> contents_item" where
  "set_number it n = ContentsItem (cls it) (result it) n (children it)"

text \<open>
  \<^verbatim>\<open>ContentsItem.add\<close>. The source mutates the child's number and the parent's list
  in place; the model returns the parent, the child as stored being the last of its
  children.
\<close>

definition add :: "contents_item \<Rightarrow> contents_item \<Rightarrow> contents_item" where
  "add self content_item =
     (let content_item' =
            (if not_number (number content_item)
             then set_number content_item (Some (int (length (children self)) + 1))
             else content_item)
      in ContentsItem (cls self) (result self) (number self)
           (children self @ [content_item']))"

text \<open>
  \<^verbatim>\<open>ContentsItem.is_before\<close>: a bool, or None (\<open>Inr None\<close>) when the four keys are
  equal.
\<close>

definition is_before :: "contents_item \<Rightarrow> contents_item \<Rightarrow> error + bool option" where
  "is_before self contents_item =
     (if item_page self \<noteq> item_page contents_item
      then Inr (Some (item_page self < item_page contents_item))
      else if item_block self \<noteq> item_block contents_item
      then Inr (Some (item_block self < item_block contents_item))
      else if item_paragraph self \<noteq> item_paragraph contents_item
      then Inr (Some (item_paragraph self < item_paragraph contents_item))
      else rbind (min_y self) (\<lambda>ya. rbind (min_y contents_item) (\<lambda>yb.
        if ya \<noteq> yb then Inr (Some (ya < yb)) else Inr None)))"

text \<open>Truth value of the result of \<^verbatim>\<open>is_before\<close> in an \<^verbatim>\<open>if\<close>: None is falsy.\<close>

definition truthy :: "bool option \<Rightarrow> bool" where
  "truthy r = (case r of None \<Rightarrow> False | Some b \<Rightarrow> b)"

text \<open>
  The \<^verbatim>\<open>for index, child in enumerate(self.children)\<close> loop of
  \<^verbatim>\<open>find_parent_for\<close> with its \<^verbatim>\<open>else\<close> branch. \<open>index\<close> counts the children
  already passed. The result is the position of \<^verbatim>\<open>parent\<close> in the children, or
  \<open>None\<close> when \<^verbatim>\<open>parent\<close> is None: at the \<^verbatim>\<open>break\<close> it is
  \<^verbatim>\<open>index - 1\<close> if \<^verbatim>\<open>index > 0\<close>; when the loop runs out, the last child if
  there is one.
\<close>

fun scan_children :: "contents_item \<Rightarrow> contents_item list \<Rightarrow> nat \<Rightarrow> error + nat option" where
  "scan_children descendant_item [] index =
     Inr (if index > 0 then Some (index - 1) else None)"
| "scan_children descendant_item (child # rest) index =
     rbind (is_before descendant_item child) (\<lambda>r.
       if truthy r then Inr (if index > 0 then Some (index - 1) else None)
       else scan_children descendant_item rest (Suc index))"

lemma scan_children_bound:
  "scan_children d cs i = Inr (Some j) \<Longrightarrow> j < i + length cs"
proof (induction cs arbitrary: i)
  case Nil
  then show ?case by (auto split: if_splits)
next
  case (Cons c cs)
  show ?case
  proof (cases "is_before d c")
    case (Inl e)
    with Cons.prems show ?thesis by (simp add: rbind_def)
  next
    case (Inr r)
    show ?thesis
    proof (cases "truthy r")
      case True
      with Inr Cons.prems show ?thesis by (auto simp: rbind_def split: if_splits)
    next
      case False
      with Inr Cons.prems have "scan_children d cs (Suc i) = Inr (Some j)"
        by (simp add: rbind_def)
      from Cons.IH [OF this] show ?thesis by simp
    qed
  qed
qed

lemma size_nth_children: "j < length cs \<Longrightarrow> size (cs ! j) < Suc (size_list size cs)"
proof (induction cs arbitrary: j)
  case Nil
  then show ?case by simp
next
  case (Cons c cs)
  show ?case
  proof (cases j)
    case 0
    then show ?thesis by simp
  next
    case (Suc k)
    with Cons.prems have "k < length cs" by simp
    from Cons.IH [OF this] Suc show ?thesis by simp
  qed
qed

text \<open>
  \<^verbatim>\<open>ContentsItem.find_parent_for\<close>. The source returns the parent object, which the
  caller then mutates; the model returns the path to it, the list of child positions from
  \<open>self\<close> down. \<^verbatim>\<open>isinstance(parent, parent_type)\<close> is equality of classes, the four
  classes having no subclasses.
\<close>

function find_parent_for :: "contents_item \<Rightarrow> contents_item \<Rightarrow> item_class \<Rightarrow> error + nat list" where
  "find_parent_for self descendant_item parent_type =
     (case scan_children descendant_item (children self) 0 of
        Inl e \<Rightarrow> Inl e
      | Inr None \<Rightarrow> Inl RuntimeError
      | Inr (Some j) \<Rightarrow>
          (if cls (children self ! j) = parent_type then Inr [j]
           else (case find_parent_for (children self ! j) descendant_item parent_type of
                   Inl e \<Rightarrow> Inl e
                 | Inr path \<Rightarrow> Inr (j # path))))"
  by pat_completeness auto
termination
proof (relation "measure (\<lambda>(self, d, t). size self)", goal_cases)
  case 1
  show ?case by simp
next
  case (2 self d t r j)
  then have "j < length (children self)"
    using scan_children_bound [of d "children self" 0 j] by simp
  then have "size (children self ! j) < size self"
    using size_nth_children [of j "children self"] by (cases self) simp
  then show ?case by simp
qed

declare find_parent_for.simps [simp del]

text \<open>The object a path leads to, and \<^verbatim>\<open>add\<close> applied to the object at a path.\<close>

fun item_at :: "contents_item \<Rightarrow> nat list \<Rightarrow> contents_item" where
  "item_at it [] = it"
| "item_at it (j # path) = item_at (children it ! j) path"

fun add_at :: "contents_item \<Rightarrow> nat list \<Rightarrow> contents_item \<Rightarrow> contents_item" where
  "add_at it [] c = add it c"
| "add_at it (j # path) c =
     ContentsItem (cls it) (result it) (number it)
       ((children it)[j := add_at (children it ! j) path c])"

text \<open>\<^verbatim>\<open>ContentsItem.flatten\<close>.\<close>

fun flatten :: "contents_item \<Rightarrow> contents_item list" where
  "flatten (ContentsItem c r n cs) = ContentsItem c r n cs # concat (map flatten cs)"

text \<open>\<^verbatim>\<open>ContentItemSpan\<close>: the start item and the end item, \<open>None\<close> for None.\<close>

record content_item_span =
  start :: contents_item
  finish :: "contents_item option"

text \<open>
  \<^verbatim>\<open>ContentItemSpan.y_bounds\<close>. An item object is truthy, so \<^verbatim>\<open>not self.end\<close>
  holds exactly when the end is None.
\<close>

definition y_bounds :: "content_item_span \<Rightarrow> error + (rat \<times> rat option)" where
  "y_bounds sp =
     (case finish sp of
        None \<Rightarrow> rbind (max_y (start sp)) (\<lambda>y0. Inr (y0, None))
      | Some e \<Rightarrow>
          (if item_page (start sp) \<noteq> item_page e
           then rbind (max_y (start sp)) (\<lambda>y0. Inr (y0, None))
           else rbind (max_y (start sp)) (\<lambda>y0. rbind (min_y e) (\<lambda>y1. Inr (y0, Some y1)))))"

text \<open>
  The spans of \<^verbatim>\<open>VerticalContentsHelper.run\<close>: one for each pair of
  \<^verbatim>\<open>zip(items[:-1], items[1:])\<close>, then the span of \<^verbatim>\<open>items[-1]\<close> with no end.
  \<^verbatim>\<open>items[-1]\<close> raises IndexError on an empty list.
\<close>

definition spans_of :: "contents_item list \<Rightarrow> error + content_item_span list" where
  "spans_of items =
     (if items = [] then Inl IndexError
      else Inr (map (\<lambda>(s, e). \<lparr>start = s, finish = Some e\<rparr>) (zip (butlast items) (tl items))
                @ [\<lparr>start = last items, finish = None\<rparr>]))"

text \<open>
  One round of the loops of \<^verbatim>\<open>build_parts\<close>, \<^verbatim>\<open>build_chapters\<close> and
  \<^verbatim>\<open>build_sections\<close>, and the loops. The results of the scanner's regex search are
  the argument.
\<close>

definition build_part :: "contents_item \<Rightarrow> search_result \<Rightarrow> error + contents_item" where
  "build_part contents part_result =
     (let part = ContentsItem Part part_result None [] in
      rbind (is_before part contents) (\<lambda>r.
        if truthy r then Inr contents else Inr (add contents part)))"

definition build_child ::
  "item_class \<Rightarrow> item_class \<Rightarrow> contents_item \<Rightarrow> search_result \<Rightarrow> error + contents_item" where
  "build_child child_type parent_type contents child_result =
     (let child = ContentsItem child_type child_result None [] in
      rbind (is_before child contents) (\<lambda>r.
        if truthy r then Inr contents
        else rbind (find_parent_for contents child parent_type) (\<lambda>path.
          Inr (add_at contents path child))))"

fun build_loop :: "('s \<Rightarrow> 'r \<Rightarrow> error + 's) \<Rightarrow> 's \<Rightarrow> 'r list \<Rightarrow> error + 's" where
  "build_loop body s [] = Inr s"
| "build_loop body s (r # rs) = rbind (body s r) (\<lambda>s'. build_loop body s' rs)"

definition build_parts :: "contents_item \<Rightarrow> search_result list \<Rightarrow> error + contents_item" where
  "build_parts contents part_results = build_loop build_part contents part_results"

definition build_chapters :: "contents_item \<Rightarrow> search_result list \<Rightarrow> error + contents_item" where
  "build_chapters contents chapter_results =
     build_loop (build_child Chapter Part) contents chapter_results"

definition build_sections :: "contents_item \<Rightarrow> search_result list \<Rightarrow> error + contents_item" where
  "build_sections contents section_results =
     build_loop (build_child Section Chapter) contents section_results"

text \<open>
  \<^verbatim>\<open>VerticalContentsHelper.run\<close> up to the list of spans; the four arguments are the
  scanner's matches of the four patterns.
\<close>

definition run_outline ::
  "search_result list \<Rightarrow> search_result list \<Rightarrow> search_result list \<Rightarrow> search_result list
     \<Rightarrow> error + (contents_item \<times> content_item_span list)" where
  "run_outline results part_results chapter_results section_results =
     (case results of
        [] \<Rightarrow> Inl ValueError
      | first # _ \<Rightarrow>
          rbind (build_parts (ContentsItem TableOfContents first None []) part_results) (\<lambda>c1.
          rbind (build_chapters c1 chapter_results) (\<lambda>c2.
          rbind (build_sections c2 section_results) (\<lambda>c3.
          rbind (spans_of (flatten c3)) (\<lambda>spans. Inr (c3, spans))))))"

text \<open>
  The value of \<^verbatim>\<open>span.y_bounds()\<close> for each span of \<^verbatim>\<open>run\<close>, in the order of
  the spans; the page loop of \<^verbatim>\<open>run\<close> reads them page by page.
\<close>

definition run_y_bounds ::
  "search_result list \<Rightarrow> search_result list \<Rightarrow> search_result list \<Rightarrow> search_result list
     \<Rightarrow> error + (error + rat \<times> rat option) list" where
  "run_y_bounds results part_results chapter_results section_results =
     rbind (run_outline results part_results chapter_results section_results)
       (\<lambda>(contents, spans). Inr (map y_bounds spans))"

text \<open>
  A path names an object of the tree when each of its positions is in range.
\<close>

fun valid_path :: "contents_item \<Rightarrow> nat list \<Rightarrow> bool" where
  "valid_path it [] = True"
| "valid_path it (j # path) = (j < length (children it) \<and> valid_path (children it ! j) path)"

section \<open>word_tools.py: elements and their geometry\<close>

text \<open>
  Numbers are modelled as rationals: the rounding of Python's floats is not modelled.
  A coordinate is a number or Python's None (\<open>None\<close>); a vertex is the pair of its
  \<^verbatim>\<open>'x'\<close> and \<^verbatim>\<open>'y'\<close> entries; a box is the list of vertices that
  \<^verbatim>\<open>bounds\<close> returns.
\<close>

type_synonym coord = "rat option"
type_synonym vertex = "coord \<times> coord"
type_synonym box = "vertex list"

text \<open>
  \<^verbatim>\<open>list_min\<close> and \<^verbatim>\<open>list_max\<close>, on the lists of numbers they are called with
  (the \<^verbatim>\<open>isinstance\<close> test holds at every call of the module).
\<close>

definition list_min :: "rat list \<Rightarrow> coord" where
  "list_min values =
     (if length values \<le> 1 then (if length values = 0 then None else Some (values ! 0))
      else Some (fold min (tl values) (hd values)))"

definition list_max :: "rat list \<Rightarrow> coord" where
  "list_max values =
     (if length values \<le> 1 then (if length values = 0 then None else Some (values ! 0))
      else Some (fold max (tl values) (hd values)))"

text \<open>The function \<^verbatim>\<open>slope\<close> of the module; the division raises on a zero divisor.\<close>

definition slope :: "rat \<times> rat \<Rightarrow> rat \<times> rat \<Rightarrow> error + rat" where
  "slope point_a point_b =
     (if point_a = point_b then Inr 0
      else if fst point_b - fst point_a = 0 then Inl ZeroDivisionError
      else Inr ((snd point_b - snd point_a) / (fst point_b - fst point_a)))"

text \<open>
  \<^verbatim>\<open>sorted\<close> and \<^verbatim>\<open>sum\<close> on a list of coordinates. Sorting two or more values
  compares each of them with another one, and a comparison with None raises TypeError;
  \<^verbatim>\<open>sum\<close> adds every element to a number, which raises TypeError on None.
\<close>

definition sorted_py :: "coord list \<Rightarrow> error + coord list" where
  "sorted_py vs =
     (if length vs < 2 then Inr vs
      else if None \<in> set vs then Inl TypeError
      else Inr (map Some (sort (map the vs))))"

definition sum_py :: "coord list \<Rightarrow> error + rat" where
  "sum_py vs = (if None \<in> set vs then Inl TypeError else Inr (sum_list (map the vs)))"

text \<open>
  The properties of \<^verbatim>\<open>Element\<close>, as functions of the value of \<^verbatim>\<open>self.bounds\<close>.
\<close>

definition coordinates :: "(vertex \<Rightarrow> coord) \<Rightarrow> box \<Rightarrow> error + coord list" where
  "coordinates axis b = sorted_py (map axis b)"

definition x_coordinates :: "box \<Rightarrow> error + coord list" where
  "x_coordinates b = coordinates fst b"

definition y_coordinates :: "box \<Rightarrow> error + coord list" where
  "y_coordinates b = coordinates snd b"

definition element_min_y :: "box \<Rightarrow> error + rat" where
  "element_min_y b = rbind (y_coordinates b) (\<lambda>ys. rbind (sum_py (take 2 ys)) (\<lambda>s. Inr (s / 2)))"

definition element_max_y :: "box \<Rightarrow> error + rat" where
  "element_max_y b = rbind (y_coordinates b) (\<lambda>ys. rbind (sum_py (drop 2 ys)) (\<lambda>s. Inr (s / 2)))"

definition element_min_x :: "box \<Rightarrow> error + rat" where
  "element_min_x b = rbind (x_coordinates b) (\<lambda>xs. rbind (sum_py (take 2 xs)) (\<lambda>s. Inr (s / 2)))"

definition element_max_x :: "box \<Rightarrow> error + rat" where
  "element_max_x b = rbind (x_coordinates b) (\<lambda>xs. rbind (sum_py (drop 2 xs)) (\<lambda>s. Inr (s / 2)))"

definition element_height :: "box \<Rightarrow> error + rat" where
  "element_height b =
     rbind (element_max_y b) (\<lambda>hi. rbind (element_min_y b) (\<lambda>lo. Inr (\<bar>hi - lo\<bar>)))"

definition element_width :: "box \<Rightarrow> error + rat" where
  "element_width b =
     rbind (element_max_x b) (\<lambda>hi. rbind (element_min_x b) (\<lambda>lo. Inr (\<bar>hi - lo\<bar>)))"

definition element_center_x :: "box \<Rightarrow> error + rat" where
  "element_center_x b =
     rbind (element_min_x b) (\<lambda>lo. rbind (element_width b) (\<lambda>w. Inr (lo + w / 2)))"

definition element_center_y :: "box \<Rightarrow> error + rat" where
  "element_center_y b =
     rbind (element_min_y b) (\<lambda>lo. rbind (element_height b) (\<lambda>h. Inr (lo + h / 2)))"

definition element_center :: "box \<Rightarrow> error + (rat \<times> rat)" where
  "element_center b =
     rbind (element_center_x b) (\<lambda>cx. rbind (element_center_y b) (\<lambda>cy. Inr (cx, cy)))"

text \<open>
  \<^verbatim>\<open>Word\<close>: the text and the vertices of the scanner's record, the coordinates being
  numbers. The break type is used by the \<^verbatim>\<open>text\<close> property of groups only, which
  is not modelled.
\<close>

record word =
  "text" :: string
  vertices :: "(rat \<times> rat) list"

text \<open>
  Reading \<^verbatim>\<open>bounds\<close> can fill a cache, so a read returns the value and the object
  after the read. A word has no cache.
\<close>

definition word_bounds :: "word \<Rightarrow> error + (box \<times> word)" where
  "word_bounds self = Inr (map (\<lambda>(x, y). (Some x, Some y)) (vertices self), self)"

text \<open>
  \<^verbatim>\<open>GroupedElement\<close>: the children and the cache \<^verbatim>\<open>_bounds\<close>. A \<^verbatim>\<open>Line\<close> is a
  grouped element of words (its \<^verbatim>\<open>alignment\<close> is None throughout), a
  \<^verbatim>\<open>LineGroup\<close> one of lines.
\<close>

record 'c grouped =
  g_children :: "'c list"
  g_bounds :: "box option"

type_synonym line = "word grouped"
type_synonym line_group = "line grouped"

definition new_grouped :: "'c grouped" where
  "new_grouped = \<lparr>g_children = [], g_bounds = None\<rparr>"

definition reset_bounds :: "'c grouped \<Rightarrow> 'c grouped" where
  "reset_bounds self = self\<lparr>g_bounds := None\<rparr>"

definition add_child :: "'c grouped \<Rightarrow> 'c \<Rightarrow> 'c grouped" where
  "add_child self child =
     (let self1 = reset_bounds self in self1\<lparr>g_children := g_children self1 @ [child]\<rparr>)"

definition is_empty :: "'c grouped \<Rightarrow> bool" where
  "is_empty self = (length (g_children self) = 0)"

text \<open>
  A property of an element: read its bounds, then compute from the box. The first
  argument is the \<^verbatim>\<open>bounds\<close> of the element's class.
\<close>

definition read ::
  "('c \<Rightarrow> error + (box \<times> 'c)) \<Rightarrow> (box \<Rightarrow> error + 'v) \<Rightarrow> 'c \<Rightarrow> error + ('v \<times> 'c)" where
  "read bounds_of property self =
     rbind (bounds_of self) (\<lambda>(b, self1). rbind (property b) (\<lambda>v. Inr (v, self1)))"

text \<open>
  A list comprehension \<^verbatim>\<open>[child.p for child in self.children]\<close>: the values, and
  the children after the reads.
\<close>

fun collect :: "('c \<Rightarrow> error + ('v \<times> 'c)) \<Rightarrow> 'c list \<Rightarrow> error + ('v list \<times> 'c list)" where
  "collect f [] = Inr ([], [])"
| "collect f (child # rest) =
     rbind (f child) (\<lambda>(v, child1).
       rbind (collect f rest) (\<lambda>(vs, rest1). Inr (v # vs, child1 # rest1)))"

text \<open>\<^verbatim>\<open>GroupedElement.bounds\<close>, for children whose bounds are read by \<open>child_bounds\<close>.\<close>

definition grouped_bounds ::
  "('c \<Rightarrow> error + (box \<times> 'c)) \<Rightarrow> 'c grouped \<Rightarrow> error + (box \<times> 'c grouped)" where
  "grouped_bounds child_bounds self =
     (case g_bounds self of
        Some b \<Rightarrow> Inr (b, self)
      | None \<Rightarrow>
          rbind (collect (read child_bounds element_min_x) (g_children self)) (\<lambda>(min_xs, cs1).
          rbind (collect (read child_bounds element_max_x) cs1) (\<lambda>(max_xs, cs2).
          rbind (collect (read child_bounds element_min_y) cs2) (\<lambda>(min_ys, cs3).
          rbind (collect (read child_bounds element_max_y) cs3) (\<lambda>(max_ys, cs4).
            let min_x = list_min min_xs; max_x = list_max max_xs;
                min_y = list_min min_ys; max_y = list_max max_ys;
                b = [(min_x, min_y), (min_x, max_y), (max_x, max_y), (max_x, min_y)]
            in Inr (b, \<lparr>g_children = cs4, g_bounds = Some b\<rparr>))))))"

definition line_bounds :: "line \<Rightarrow> error + (box \<times> line)" where
  "line_bounds = grouped_bounds word_bounds"

definition group_bounds :: "line_group \<Rightarrow> error + (box \<times> line_group)" where
  "group_bounds = grouped_bounds line_bounds"

section \<open>word_tools.py: the word grouper\<close>

text \<open>
  The keys of the proximity thresholds, the defaults, and the dictionary that
  \<^verbatim>\<open>__init__\<close> builds from the defaults and the caller's entries.
\<close>

datatype threshold_key = KWord | KLine | KLineSlope | KGroup | KHeight

fun DEFAULT_PROXIMITY_THRESHOLDS :: "threshold_key \<Rightarrow> rat" where
  "DEFAULT_PROXIMITY_THRESHOLDS KWord = 35"
| "DEFAULT_PROXIMITY_THRESHOLDS KLine = 12"
| "DEFAULT_PROXIMITY_THRESHOLDS KLineSlope = 1"
| "DEFAULT_PROXIMITY_THRESHOLDS KGroup = 7"
| "DEFAULT_PROXIMITY_THRESHOLDS KHeight = 10"

definition updated_thresholds ::
  "(threshold_key \<Rightarrow> rat option) option \<Rightarrow> threshold_key \<Rightarrow> rat" where
  "updated_thresholds proximity_thresholds k =
     (case proximity_thresholds of
        None \<Rightarrow> DEFAULT_PROXIMITY_THRESHOLDS k
      | Some d \<Rightarrow> (case d k of None \<Rightarrow> DEFAULT_PROXIMITY_THRESHOLDS k | Some v \<Rightarrow> v))"

text \<open>
  A compiled pattern is modelled by the set of strings it matches in full.
  \<^verbatim>\<open>re.fullmatch(pattern, s) is not None\<close>: with None for the pattern
  \<^verbatim>\<open>re.fullmatch\<close> raises TypeError.
\<close>

type_synonym regex = "string \<Rightarrow> bool"

definition fullmatch :: "regex option \<Rightarrow> string \<Rightarrow> error + bool" where
  "fullmatch pattern s = (case pattern of None \<Rightarrow> Inl TypeError | Some p \<Rightarrow> Inr (p s))"

text \<open>The state of a \<^verbatim>\<open>WordGrouper\<close>.\<close>

record word_grouper =
  page_width :: rat
  page_height :: rat
  words :: "word list"
  ignore_regex :: "regex option"
  proximity_thresholds :: "threshold_key \<Rightarrow> rat"
  line_groups :: "line_group list"

text \<open>\<^verbatim>\<open>WordGrouper.__init__\<close>; \<^verbatim>\<open>self.words.pop(0)\<close> raises IndexError on no words.\<close>

definition init :: "rat \<Rightarrow> rat \<Rightarrow> word list \<Rightarrow> regex option \<Rightarrow>
    (threshold_key \<Rightarrow> rat option) option \<Rightarrow> error + word_grouper" where
  "init pw ph ws ignore thresholds =
     (case ws of
        [] \<Rightarrow> Inl IndexError
      | first # rest \<Rightarrow>
          (let first_line = add_child new_grouped first;
               first_group = add_child new_grouped first_line
           in Inr \<lparr>page_width = pw, page_height = ph, words = rest, ignore_regex = ignore,
                   proximity_thresholds = updated_thresholds thresholds,
                   line_groups = [first_group]\<rparr>))"

text \<open>
  \<^verbatim>\<open>is_in_line\<close> with a word for the element, \<^verbatim>\<open>word_in_line\<close> and
  \<^verbatim>\<open>line_in_group\<close>. Each returns its truth value and the objects after the reads.
\<close>

definition is_in_line :: "(threshold_key \<Rightarrow> rat) \<Rightarrow> word \<Rightarrow> line \<Rightarrow> error + (bool \<times> line)" where
  "is_in_line th element line =
     rbind (read line_bounds element_center line) (\<lambda>(lc, line1).
     rbind (read word_bounds element_center element) (\<lambda>(ec, _).
     rbind (slope lc ec) (\<lambda>s.
       if s > th KLineSlope then Inr (False, line1)
       else
         rbind (read word_bounds element_height element) (\<lambda>(eh, _).
         rbind (read line_bounds element_height line1) (\<lambda>(lh, line2).
           if \<bar>eh - lh\<bar> > th KHeight then Inr (False, line2) else Inr (True, line2))))))"

definition word_in_line :: "(threshold_key \<Rightarrow> rat) \<Rightarrow> word \<Rightarrow> line \<Rightarrow> error + (bool \<times> line)" where
  "word_in_line th w line =
     rbind (is_in_line th w line) (\<lambda>(r, line1).
       if \<not> r then Inr (False, line1)
       else
         rbind (read word_bounds element_min_x w) (\<lambda>(wx, _).
         rbind (read line_bounds element_max_x line1) (\<lambda>(lx, line2).
           Inr (\<bar>wx - lx\<bar> < th KWord, line2))))"

definition line_in_group ::
  "(threshold_key \<Rightarrow> rat) \<Rightarrow> line \<Rightarrow> line_group \<Rightarrow> error + (bool \<times> line \<times> line_group)" where
  "line_in_group th line grp =
     rbind (read line_bounds element_min_y line) (\<lambda>(ly, line1).
     rbind (read group_bounds element_max_y grp) (\<lambda>(gy, grp1).
       if \<bar>ly - gy\<bar> > th KGroup then Inr (False, line1, grp1) else Inr (True, line1, grp1)))"

text \<open>
  One round of the loop of \<^verbatim>\<open>group\<close> on the list \<^verbatim>\<open>self.line_groups\<close>. The
  source changes the last group and its last line in place; the model rebuilds the list
  around them. \<^verbatim>\<open>xs[-1]\<close> raises IndexError on an empty list.
\<close>

definition group_step ::
  "(threshold_key \<Rightarrow> rat) \<Rightarrow> word \<Rightarrow> line_group list \<Rightarrow> error + line_group list" where
  "group_step th w gs =
     (if gs = [] then Inl IndexError
      else
        let grp = last gs in
        if g_children grp = [] then Inl IndexError
        else
          let last_line = last (g_children grp) in
          rbind (word_in_line th w last_line) (\<lambda>(r, last_line1).
            if r then
              Inr (butlast gs @
                   [grp\<lparr>g_children := butlast (g_children grp) @ [add_child last_line1 w]\<rparr>])
            else
              let grp1 = grp\<lparr>g_children := butlast (g_children grp) @ [last_line1]\<rparr>;
                  new_line = add_child new_grouped w
              in rbind (line_in_group th new_line grp1) (\<lambda>(r2, new_line1, grp2).
                   if r2 then Inr (butlast gs @ [add_child grp2 new_line1])
                   else Inr (butlast gs @ [grp2] @ [add_child new_grouped new_line1]))))"

fun group_loop ::
  "(threshold_key \<Rightarrow> rat) \<Rightarrow> line_group list \<Rightarrow> word list \<Rightarrow> error + line_group list" where
  "group_loop th gs [] = Inr gs"
| "group_loop th gs (w # ws) = rbind (group_step th w gs) (\<lambda>gs1. group_loop th gs1 ws)"

text \<open>
  \<^verbatim>\<open>do_trim_line_words\<close>: words are popped off the end while they match, the first
  one that does not match is put back.
\<close>

function do_trim_line_words :: "regex option \<Rightarrow> word list \<Rightarrow> error + word list" where
  "do_trim_line_words ignore ws =
     (if length ws \<noteq> 0 then
        (case fullmatch ignore (text (last ws)) of
           Inl e \<Rightarrow> Inl e
         | Inr m \<Rightarrow>
             if \<not> m then Inr (butlast ws @ [last ws])
             else do_trim_line_words ignore (butlast ws))
      else Inr ws)"
  by pat_completeness auto
termination
  by (relation "measure (\<lambda>(ignore, ws). length ws)") auto

declare do_trim_line_words.simps [simp del]

text \<open>\<^verbatim>\<open>trim_line\<close>.\<close>

definition trim_line :: "regex option \<Rightarrow> line \<Rightarrow> error + line" where
  "trim_line ignore line =
     (if is_empty line then Inr line
      else
        rbind (do_trim_line_words ignore (rev (g_children line))) (\<lambda>ws1.
          let line1 = line\<lparr>g_children := ws1\<rparr> in
          if \<not> is_empty line1 then
            rbind (do_trim_line_words ignore (rev (g_children line1))) (\<lambda>ws2.
              Inr (reset_bounds (line1\<lparr>g_children := ws2\<rparr>)))
          else Inr (reset_bounds line1)))"

text \<open>
  The loop of \<^verbatim>\<open>clean_words\<close> over the words of a line, with its flag
  \<^verbatim>\<open>matched\<close>: for each word, whether it is appended to \<^verbatim>\<open>words_to_remove\<close>.
\<close>

fun words_to_remove :: "regex option \<Rightarrow> bool \<Rightarrow> word list \<Rightarrow> error + bool list" where
  "words_to_remove ignore matched [] = Inr []"
| "words_to_remove ignore matched (w # ws) =
     rbind (fullmatch ignore (text w)) (\<lambda>m.
       if m then rbind (words_to_remove ignore True ws) (\<lambda>marks. Inr (matched # marks))
       else rbind (words_to_remove ignore False ws) (\<lambda>marks. Inr (False # marks)))"

text \<open>
  The loops \<^verbatim>\<open>for x in to_remove: xs.remove(x)\<close>. The collected objects are
  elements of the list, \<^verbatim>\<open>==\<close> on Word, Line and LineGroup objects is identity, and
  every such object is created once and stands once in its list: each
  \<^verbatim>\<open>remove\<close> deletes the position at which the object was collected.
\<close>

definition remove_marked :: "'a list \<Rightarrow> bool list \<Rightarrow> 'a list" where
  "remove_marked xs marks = map fst (filter (\<lambda>(x, m). \<not> m) (zip xs marks))"

text \<open>
  The body of the loop of \<^verbatim>\<open>clean_words\<close> over the lines of a group: the line
  after the round, and whether it is appended to \<^verbatim>\<open>lines_to_remove\<close>.
\<close>

definition clean_line :: "regex option \<Rightarrow> line \<Rightarrow> error + (line \<times> bool)" where
  "clean_line ignore line =
     (if is_empty line then Inr (line, True)
      else
        rbind (trim_line ignore line) (\<lambda>line1.
        rbind (words_to_remove ignore False (g_children line1)) (\<lambda>marks.
          let line2 = line1\<lparr>g_children := remove_marked (g_children line1) marks\<rparr>
          in Inr (reset_bounds line2, is_empty line2))))"

fun each :: "('a \<Rightarrow> error + 'b) \<Rightarrow> 'a list \<Rightarrow> error + 'b list" where
  "each f [] = Inr []"
| "each f (x # xs) = rbind (f x) (\<lambda>y. rbind (each f xs) (\<lambda>ys. Inr (y # ys)))"

text \<open>
  The body of the loop over the groups: the group after the round, and whether it is
  appended to \<^verbatim>\<open>groups_to_remove\<close>.
\<close>

definition clean_group :: "regex option \<Rightarrow> line_group \<Rightarrow> error + (line_group \<times> bool)" where
  "clean_group ignore grp =
     rbind (each (clean_line ignore) (g_children grp)) (\<lambda>rs.
       let grp1 = reset_bounds (grp\<lparr>g_children := remove_marked (map fst rs) (map snd rs)\<rparr>)
       in Inr (grp1, is_empty grp1))"

text \<open>\<^verbatim>\<open>clean_words\<close>, on the list \<^verbatim>\<open>self.line_groups\<close>.\<close>

definition clean_words :: "regex option \<Rightarrow> line_group list \<Rightarrow> error + line_group list" where
  "clean_words ignore gs =
     rbind (each (clean_group ignore) gs) (\<lambda>rs.
       Inr (remove_marked (map fst rs) (map snd rs)))"

text \<open>\<^verbatim>\<open>WordGrouper.group\<close>: the value it returns.\<close>

definition group :: "word_grouper \<Rightarrow> error + line_group list" where
  "group self =
     rbind (group_loop (proximity_thresholds self) (line_groups self) (words self)) (\<lambda>gs.
       clean_words (ignore_regex self) gs)"

text \<open>
  The whole computation: \<^verbatim>\<open>WordGrouper(page_width, page_height, words, ignore_regex,
  proximity_thresholds).group()\<close>.
\<close>

definition grouped_words :: "rat \<Rightarrow> rat \<Rightarrow> word list \<Rightarrow> regex option \<Rightarrow>
    (threshold_key \<Rightarrow> rat option) option \<Rightarrow> error + line_group list" where
  "grouped_words pw ph ws ignore thresholds = rbind (init pw ph ws ignore thresholds) group"

text \<open>
  \<^verbatim>\<open>GROUP_IGNORE\<close> of vertical_keyworded_toc.py, the pattern
  \<^verbatim>\<open>^[\s\.\-]+$\<close>: the non-empty strings of white space, dots and hyphens.
\<close>

definition GROUP_IGNORE :: regex where
  "GROUP_IGNORE s =
     (s \<noteq> [] \<and> list_all (\<lambda>c. c \<in> set [CHR '' '', CHR 0x09, CHR 0x0A, CHR 0x0B, CHR 0x0C,
                                           CHR 0x0D, CHR ''.'', CHR ''-'']) s)"

section \<open>The specification's notions, for comparison with the code\<close>

text \<open>
  Top and bottom of an anchor box: the least and the greatest y among its vertices
  (y grows downwards on a page).
\<close>

definition box_top :: "contents_item \<Rightarrow> rat" where
  "box_top it = Min (snd ` set (bounds (result it)))"

definition box_bottom :: "contents_item \<Rightarrow> rat" where
  "box_bottom it = Max (snd ` set (bounds (result it)))"

text \<open>
  The four ordering keys in their priority, and the comparison on the first differing
  key: true when the left key is smaller there, false when it is greater, undefined
  (\<open>None\<close>) when there is no differing key.
\<close>

definition ordering_keys :: "contents_item \<Rightarrow> rat list" where
  "ordering_keys it =
     [of_int (item_page it), of_int (item_block it), of_int (item_paragraph it), box_top it]"

fun first_differing :: "rat list \<Rightarrow> rat list \<Rightarrow> bool option" where
  "first_differing (x # xs) (y # ys) = (if x \<noteq> y then Some (x < y) else first_differing xs ys)"
| "first_differing _ _ = None"

text \<open>
  Shorthands for concrete inputs: a search result, and the four vertices of an upright
  box with corners \<open>(x0, y0)\<close> and \<open>(x1, y1)\<close>.
\<close>

definition anchor :: "int \<Rightarrow> int \<Rightarrow> int \<Rightarrow> (rat \<times> rat) list \<Rightarrow> search_result" where
  "anchor p b q vs = \<lparr>page = p, block = b, paragraph = q, bounds = vs\<rparr>"

definition quad :: "rat \<Rightarrow> rat \<Rightarrow> rat \<Rightarrow> rat \<Rightarrow> (rat \<times> rat) list" where
  "quad x0 y0 x1 y1 = [(x0, y0), (x1, y0), (x1, y1), (x0, y1)]"

text \<open>
  A small outline: a root with two parts, the first with one chapter; the second part
  is on the next page.
\<close>

definition example_outline :: contents_item where
  "example_outline =
     ContentsItem TableOfContents (anchor 0 0 0 (quad 0 0 100 10)) None
       [ContentsItem Part (anchor 0 1 0 (quad 0 20 100 30)) (Some 1)
          [ContentsItem Chapter (anchor 0 2 0 (quad 0 40 100 50)) (Some 1) []],
        ContentsItem Part (anchor 1 0 0 (quad 0 5 100 15)) (Some 2) []]"

subsection \<open>Notions for the word grouper\<close>

text \<open>
  The box of a word, and the boxes that the code computes for a line and for a group
  built afresh from the given words, with no cached bounds anywhere: the geometry of
  the words themselves.
\<close>

definition wbox :: "word \<Rightarrow> box" where
  "wbox w = map (\<lambda>(x, y). (Some x, Some y)) (vertices w)"

definition fresh :: "'c list \<Rightarrow> 'c grouped" where
  "fresh cs = \<lparr>g_children = cs, g_bounds = None\<rparr>"

definition line_box :: "word list \<Rightarrow> error + box" where
  "line_box ws = map_sum id fst (line_bounds (fresh ws))"

definition group_box :: "word list list \<Rightarrow> error + box" where
  "group_box wss = map_sum id fst (group_bounds (fresh (map fresh wss)))"

text \<open>A property of a word, of a line with the given words, of a group with the given lines.\<close>

definition word_property :: "(box \<Rightarrow> error + 'v) \<Rightarrow> word \<Rightarrow> error + 'v" where
  "word_property p w = p (wbox w)"

definition line_property :: "(box \<Rightarrow> error + 'v) \<Rightarrow> word list \<Rightarrow> error + 'v" where
  "line_property p ws = rbind (line_box ws) p"

definition group_property :: "(box \<Rightarrow> error + 'v) \<Rightarrow> word list list \<Rightarrow> error + 'v" where
  "group_property p wss = rbind (group_box wss) p"

text \<open>
  What the objects hold: the words of each line of each group, and their texts.
\<close>

definition words_of :: "line_group list \<Rightarrow> word list list list" where
  "words_of gs = map (\<lambda>g. map g_children (g_children g)) gs"

definition texts_of :: "line_group list \<Rightarrow> string list list list" where
  "texts_of gs = map (map (map text)) (words_of gs)"

text \<open>
  The three outcomes of a round of the grouping loop: the word joins the last line of the
  last group, or it starts a new line in the last group, or it starts a new group.
\<close>

definition into_last_line :: "'a list list list \<Rightarrow> 'a \<Rightarrow> 'a list list list" where
  "into_last_line wsss w = butlast wsss @ [butlast (last wsss) @ [last (last wsss) @ [w]]]"

definition into_last_group :: "'a list list list \<Rightarrow> 'a \<Rightarrow> 'a list list list" where
  "into_last_group wsss w = butlast wsss @ [last wsss @ [[w]]]"

definition as_new_group :: "'a list list list \<Rightarrow> 'a \<Rightarrow> 'a list list list" where
  "as_new_group wsss w = wsss @ [[[w]]]"

text \<open>
  A round of the grouping loop in the specification's words, on the words alone: the
  slope between the centres of the last line and of the word, the difference of their
  heights, the gap between the word's left edge and the line's right edge, and the gap
  between the top of the new line and the bottom of the group.
\<close>

definition spec_step ::
  "(threshold_key \<Rightarrow> rat) \<Rightarrow> word list list list \<Rightarrow> word \<Rightarrow> error + word list list list" where
  "spec_step th wsss w =
     rbind (line_property element_center (last (last wsss))) (\<lambda>lc.
     rbind (word_property element_center w) (\<lambda>wc.
     rbind (slope lc wc) (\<lambda>s.
     rbind (line_property element_height (last (last wsss))) (\<lambda>lh.
     rbind (word_property element_height w) (\<lambda>wh.
     rbind (word_property element_min_x w) (\<lambda>wx.
     rbind (line_property element_max_x (last (last wsss))) (\<lambda>lx.
     rbind (line_property element_min_y [w]) (\<lambda>ny.
     rbind (group_property element_max_y (last wsss)) (\<lambda>gy.
       Inr (if s \<le> th KLineSlope \<and> \<bar>wh - lh\<bar> \<le> th KHeight \<and> \<bar>wx - lx\<bar> < th KWord
            then into_last_line wsss w
            else if \<bar>ny - gy\<bar> \<le> th KGroup then into_last_group wsss w
            else as_new_group wsss w))))))))))"

text \<open>
  No test of the run meets a word whose centre has the x coordinate of the centre of the
  last line and another y coordinate: the words are taken in order, the arrangement
  following the rounds above.
\<close>

fun slopes_defined ::
  "(threshold_key \<Rightarrow> rat) \<Rightarrow> word list list list \<Rightarrow> word list \<Rightarrow> bool" where
  "slopes_defined th wsss [] = True"
| "slopes_defined th wsss (w # ws) =
     ((case line_property element_center (last (last wsss)) of
         Inl e \<Rightarrow> True
       | Inr lc \<Rightarrow>
           (case word_property element_center w of
              Inl e \<Rightarrow> True
            | Inr wc \<Rightarrow> lc = wc \<or> fst lc \<noteq> fst wc))
      \<and> (case spec_step th wsss w of
            Inl e \<Rightarrow> True
          | Inr wsss1 \<Rightarrow> slopes_defined th wsss1 ws))"

text \<open>
  The cleanup in the specification's words: the ignorable words at both ends of a line
  go; of every run of consecutive ignorable words that remains, the first word stays;
  lines without words and groups without lines go.
\<close>

definition trim_both :: "('a \<Rightarrow> bool) \<Rightarrow> 'a list \<Rightarrow> 'a list" where
  "trim_both q ws = rev (dropWhile q (rev (dropWhile q ws)))"

fun collapse_runs :: "('a \<Rightarrow> bool) \<Rightarrow> 'a list \<Rightarrow> 'a list" where
  "collapse_runs q (v # w # ws) =
     (if q v \<and> q w then collapse_runs q (v # ws) else v # collapse_runs q (w # ws))"
| "collapse_runs q ws = ws"

definition cleaned :: "regex \<Rightarrow> word list list list \<Rightarrow> word list list list" where
  "cleaned p wsss =
     filter (\<lambda>g. g \<noteq> [])
       (map (\<lambda>g. filter (\<lambda>l. l \<noteq> [])
                   (map (\<lambda>l. collapse_runs (\<lambda>w. p (text w)) (trim_both (\<lambda>w. p (text w)) l)) g))
          wsss)"

text \<open>The box of an element without children: four vertices of None coordinates.\<close>

definition none_box :: box where
  "none_box = [(None, None), (None, None), (None, None), (None, None)]"

text \<open>A word with the given text and an upright box, for concrete inputs.\<close>

definition example_word :: "string \<Rightarrow> rat \<Rightarrow> rat \<Rightarrow> rat \<Rightarrow> rat \<Rightarrow> word" where
  "example_word t x0 y0 x1 y1 = \<lparr>text = t, vertices = quad x0 y0 x1 y1\<rparr>"

subsection \<open>Auxiliary notions of the proofs\<close>

text \<open>
  The bounds of a grouped element as a function of the bounds of its children; a box
  without None; a line whose cache, if set, holds the bounds of its words; the line
  after a read of its bounds; the state of the grouping loop between two rounds; the
  marks of the cleanup loop.
\<close>

definition pure_bounds :: "(error + box) list \<Rightarrow> error + box" where
  "pure_bounds vs =
     rbind (each (\<lambda>v. rbind v element_min_x) vs) (\<lambda>min_xs.
     rbind (each (\<lambda>v. rbind v element_max_x) vs) (\<lambda>max_xs.
     rbind (each (\<lambda>v. rbind v element_min_y) vs) (\<lambda>min_ys.
     rbind (each (\<lambda>v. rbind v element_max_y) vs) (\<lambda>max_ys.
       Inr [(list_min min_xs, list_min min_ys), (list_min min_xs, list_max max_ys),
            (list_max max_xs, list_max max_ys), (list_max max_xs, list_min min_ys)]))))"

definition numeric :: "box \<Rightarrow> bool" where
  "numeric b = (\<forall>v \<in> set b. fst v \<noteq> None \<and> snd v \<noteq> None)"

definition line_ok :: "line \<Rightarrow> bool" where
  "line_ok l = (case g_bounds l of None \<Rightarrow> True | Some b \<Rightarrow> line_box (g_children l) = Inr b)"

definition touch :: "line \<Rightarrow> line" where
  "touch l = (case line_bounds l of Inr (b, l1) \<Rightarrow> l1 | Inl e \<Rightarrow> l)"

definition step_inv :: "line_group list \<Rightarrow> bool" where
  "step_inv gs =
     (gs \<noteq> [] \<and> g_bounds (last gs) = None \<and> g_children (last gs) \<noteq> [] \<and>
      (\<forall>l \<in> set (g_children (last gs)). g_children l \<noteq> [] \<and> line_ok l))"

fun marks :: "('a \<Rightarrow> bool) \<Rightarrow> bool \<Rightarrow> 'a list \<Rightarrow> bool list" where
  "marks q matched [] = []"
| "marks q matched (w # ws) = (if q w then matched # marks q True ws else False # marks q False ws)"

section \<open>Properties of the outline model\<close>

lemma fold_min_Min:
  assumes "vs \<noteq> []"
  shows "fold min (tl vs) (hd vs) = Min (set vs)"
proof (cases vs)
  case Nil
  with assms show ?thesis by simp
next
  case (Cons a as)
  then show ?thesis using Min.set_eq_fold [of a as] by simp
qed

lemma fold_max_Max:
  assumes "vs \<noteq> []"
  shows "fold max (tl vs) (hd vs) = Max (set vs)"
proof (cases vs)
  case Nil
  with assms show ?thesis by simp
next
  case (Cons a as)
  then show ?thesis using Max.set_eq_fold [of a as] by simp
qed

lemma min_y_box_top: "2 \<le> length (bounds (result it)) \<Longrightarrow> min_y it = Inr (box_top it)"
proof -
  assume len: "2 \<le> length (bounds (result it))"
  then have ne: "map snd (bounds (result it)) \<noteq> []" by auto
  show ?thesis
    using len fold_min_Min [OF ne] by (simp add: min_y_def min_star_def box_top_def)
qed

lemma max_y_box_bottom: "2 \<le> length (bounds (result it)) \<Longrightarrow> max_y it = Inr (box_bottom it)"
proof -
  assume len: "2 \<le> length (bounds (result it))"
  then have ne: "map snd (bounds (result it)) \<noteq> []" by auto
  show ?thesis
    using len fold_max_Max [OF ne] by (simp add: max_y_def max_star_def box_bottom_def)
qed

lemma box_top_le_bottom: "bounds (result it) \<noteq> [] \<Longrightarrow> box_top it \<le> box_bottom it"
proof -
  assume "bounds (result it) \<noteq> []"
  then obtain v where v: "v \<in> snd ` set (bounds (result it))"
    by (cases "bounds (result it)") auto
  have "Min (snd ` set (bounds (result it))) \<le> v" using v by (intro Min_le) simp_all
  moreover have "v \<le> Max (snd ` set (bounds (result it)))" using v by (intro Max_ge) simp_all
  ultimately show ?thesis by (simp add: box_top_def box_bottom_def)
qed

subsection \<open>Adding a child\<close>

text \<open>
  Claim C10. \<open>add p c\<close> leaves \<open>p\<close> as it is but for its children, which are the former
  children in their order followed by the child; the child is stored unchanged but for
  its number, which becomes the former number of children plus one when it was None or
  0, and stays what it was otherwise.
\<close>

theorem add_appends_child:
  "cls (add p c) = cls p \<and> result (add p c) = result p \<and> number (add p c) = number p \<and>
   children (add p c) =
     children p @
       [ContentsItem (cls c) (result c)
          (if number c = None \<or> number c = Some 0
           then Some (int (length (children p)) + 1) else number c)
          (children c)]"
  by (cases c) (auto simp: add_def Let_def not_number_def set_number_def split: option.splits)

subsection \<open>The ordering relation\<close>

text \<open>
  Claim C5. For two items whose boxes have at least two vertices (the scanner gives
  four), \<open>is_before\<close> is the comparison on the first differing key among page, block,
  paragraph and top of the box, in that priority: the truth value of "smaller" there, and
  None when all four keys are equal.
\<close>

theorem is_before_lexicographic:
  assumes "2 \<le> length (bounds (result a))" and "2 \<le> length (bounds (result b))"
  shows "is_before a b = Inr (first_differing (ordering_keys a) (ordering_keys b)) \<and>
         (ordering_keys a = ordering_keys b \<longleftrightarrow> is_before a b = Inr None)"
proof -
  have ya: "min_y a = Inr (box_top a)" and yb: "min_y b = Inr (box_top b)"
    using assms by (simp_all add: min_y_box_top)
  have eq: "is_before a b = Inr (first_differing (ordering_keys a) (ordering_keys b))"
    by (simp add: is_before_def ordering_keys_def ya yb rbind_def)
  then have "ordering_keys a = ordering_keys b \<longleftrightarrow> is_before a b = Inr None"
    by (auto simp: ordering_keys_def)
  with eq show ?thesis by simp
qed

theorem is_before_lexicographic_witness:
  "is_before (ContentsItem Part (anchor 3 1 0 (quad 0 10 50 20)) None [])
             (ContentsItem Part (anchor 3 1 2 (quad 0 5 50 9)) None []) = Inr (Some True)
   \<and> is_before (ContentsItem Part (anchor 3 1 0 (quad 0 10 50 20)) None [])
                (ContentsItem Chapter (anchor 3 1 0 (quad 7 10 90 30)) None []) = Inr None"
proof -
  let ?a = "ContentsItem Part (anchor 3 1 0 (quad 0 10 50 20)) None []"
  let ?b = "ContentsItem Part (anchor 3 1 2 (quad 0 5 50 9)) None []"
  let ?c = "ContentsItem Chapter (anchor 3 1 0 (quad 7 10 90 30)) None []"
  have la: "2 \<le> length (bounds (result ?a))" by (simp add: anchor_def quad_def)
  have lb: "2 \<le> length (bounds (result ?b))" by (simp add: anchor_def quad_def)
  have lc: "2 \<le> length (bounds (result ?c))" by (simp add: anchor_def quad_def)
  have "is_before ?a ?b = Inr (Some True)"
    using is_before_lexicographic [OF la lb]
    by (simp add: ordering_keys_def item_page_def item_block_def item_paragraph_def
        anchor_def quad_def box_top_def)
  moreover have "is_before ?a ?c = Inr None"
    using is_before_lexicographic [OF la lc]
    by (simp add: ordering_keys_def item_page_def item_block_def item_paragraph_def
        anchor_def quad_def box_top_def)
  ultimately show ?thesis by simp
qed

subsection \<open>Flattening and spans\<close>

lemma flatten_unfold: "flatten t = t # concat (map flatten (children t))"
  by (cases t) simp

lemma flatten_nonempty: "flatten t \<noteq> []"
  by (cases t) simp

lemma spans_of_nth:
  assumes "items \<noteq> []"
  shows "\<exists>sps. spans_of items = Inr sps \<and> length sps = length items \<and>
           (\<forall>i < length items. sps ! i =
              \<lparr>start = items ! i,
               finish = (if Suc i < length items then Some (items ! Suc i) else None)\<rparr>)"
proof -
  let ?pairs = "map (\<lambda>(s, e). \<lparr>start = s, finish = Some e\<rparr>) (zip (butlast items) (tl items))"
  let ?sps = "?pairs @ [\<lparr>start = last items, finish = None\<rparr>]"
  have eq: "spans_of items = Inr ?sps" using assms by (simp add: spans_of_def)
  have lp: "length ?pairs = length items - 1" by simp
  have len: "length ?sps = length items" using assms lp by (cases items) simp_all
  have nth: "?sps ! i =
      \<lparr>start = items ! i, finish = (if Suc i < length items then Some (items ! Suc i) else None)\<rparr>"
    if i: "i < length items" for i
  proof (cases "Suc i < length items")
    case True
    then have "i < length ?pairs" by simp
    then have "?sps ! i = ?pairs ! i" by (simp add: nth_append)
    also have "\<dots> = \<lparr>start = items ! i, finish = Some (items ! Suc i)\<rparr>"
      using True by (simp add: nth_butlast nth_tl)
    finally show ?thesis using True by simp
  next
    case False
    with i have ieq: "i = length items - 1" by simp
    then have "?sps ! i = \<lparr>start = last items, finish = None\<rparr>"
      using lp by (simp add: nth_append)
    moreover have "last items = items ! i" using assms ieq by (simp add: last_conv_nth)
    ultimately show ?thesis using False by simp
  qed
  show ?thesis using eq len nth by blast
qed

lemma spans_of_flatten:
  assumes wf: "\<forall>it \<in> set (flatten t). 2 \<le> length (bounds (result it))"
  shows "(\<exists>sps. spans_of (flatten t) = Inr sps \<and> length sps = length (flatten t) \<and>
            (\<forall>i < length sps.
               start (sps ! i) = flatten t ! i \<and>
               finish (sps ! i) =
                 (if Suc i < length (flatten t) then Some (flatten t ! Suc i) else None) \<and>
               y_bounds (sps ! i) =
                 Inr (box_bottom (flatten t ! i),
                      if Suc i < length (flatten t) \<and>
                         item_page (flatten t ! i) = item_page (flatten t ! Suc i)
                      then Some (box_top (flatten t ! Suc i)) else None)))"
proof -
  let ?items = "flatten t"
  from spans_of_nth [OF flatten_nonempty [of t]] obtain sps where
    eq: "spans_of ?items = Inr sps" and len: "length sps = length ?items" and
    nth: "\<And>i. i < length ?items \<Longrightarrow> sps ! i =
        \<lparr>start = ?items ! i,
         finish = (if Suc i < length ?items then Some (?items ! Suc i) else None)\<rparr>"
    by blast
  have pt: "start (sps ! i) = ?items ! i \<and>
      finish (sps ! i) = (if Suc i < length ?items then Some (?items ! Suc i) else None) \<and>
      y_bounds (sps ! i) =
        Inr (box_bottom (?items ! i),
             if Suc i < length ?items \<and> item_page (?items ! i) = item_page (?items ! Suc i)
             then Some (box_top (?items ! Suc i)) else None)"
    if i: "i < length sps" for i
  proof -
    from i len have i': "i < length ?items" by simp
    have bot: "max_y (?items ! i) = Inr (box_bottom (?items ! i))"
      using wf i' by (intro max_y_box_bottom) simp
    have top: "min_y (?items ! Suc i) = Inr (box_top (?items ! Suc i))"
      if "Suc i < length ?items"
      using wf that by (intro min_y_box_top) simp
    show ?thesis
      using nth [OF i'] bot top by (simp add: y_bounds_def rbind_def)
  qed
  show ?thesis using eq len pt by blast
qed

text \<open>
  Claim C7. The flattened list is the node followed by the flattened subtrees of its
  children in order. For a tree whose anchor boxes have at least two vertices there is
  one span per flattened node, in that order: the span starts at the node, ends at the
  next flattened node (the last has no end), and its bounds are the bottom of the start
  node's box and, when the next node is on the same page, the top of the next node's
  box, undefined otherwise.
\<close>

theorem spans_follow_preorder:
  assumes wf: "\<forall>it \<in> set (flatten t). 2 \<le> length (bounds (result it))"
  shows "flatten t = t # concat (map flatten (children t)) \<and>
         (\<exists>sps. spans_of (flatten t) = Inr sps \<and> length sps = length (flatten t) \<and>
            (\<forall>i < length sps.
               start (sps ! i) = flatten t ! i \<and>
               finish (sps ! i) =
                 (if Suc i < length (flatten t) then Some (flatten t ! Suc i) else None) \<and>
               y_bounds (sps ! i) =
                 Inr (box_bottom (flatten t ! i),
                      if Suc i < length (flatten t) \<and>
                         item_page (flatten t ! i) = item_page (flatten t ! Suc i)
                      then Some (box_top (flatten t ! Suc i)) else None)))"
  using flatten_unfold [of t] spans_of_flatten [OF wf] by blast

lemma example_outline_flatten:
  "flatten example_outline =
     [example_outline,
      ContentsItem Part (anchor 0 1 0 (quad 0 20 100 30)) (Some 1)
        [ContentsItem Chapter (anchor 0 2 0 (quad 0 40 100 50)) (Some 1) []],
      ContentsItem Chapter (anchor 0 2 0 (quad 0 40 100 50)) (Some 1) [],
      ContentsItem Part (anchor 1 0 0 (quad 0 5 100 15)) (Some 2) []]"
  by (simp add: example_outline_def)

lemma example_outline_boxes:
  "\<forall>it \<in> set (flatten example_outline). 2 \<le> length (bounds (result it))"
  by (simp add: example_outline_flatten) (simp add: example_outline_def anchor_def quad_def)

theorem spans_follow_preorder_witness:
  "\<exists>sps. spans_of (flatten example_outline) = Inr sps \<and> length sps = 4 \<and>
     map y_bounds sps =
       [Inr (10, Some 20), Inr (30, Some 40), Inr (50, None), Inr (15, None)]"
proof -
  from spans_follow_preorder [OF example_outline_boxes] obtain sps where
    eq: "spans_of (flatten example_outline) = Inr sps" and
    len: "length sps = length (flatten example_outline)" and
    nth: "\<And>i. i < length sps \<Longrightarrow>
      y_bounds (sps ! i) =
        Inr (box_bottom (flatten example_outline ! i),
             if Suc i < length (flatten example_outline) \<and>
                item_page (flatten example_outline ! i) =
                item_page (flatten example_outline ! Suc i)
             then Some (box_top (flatten example_outline ! Suc i)) else None)"
    by blast
  have len4: "length sps = 4" using len by (simp add: example_outline_flatten)
  have y0: "y_bounds (sps ! 0) = Inr (10, Some 20)"
    using nth [of 0] len4
    by (simp add: example_outline_flatten)
       (simp add: example_outline_def box_bottom_def box_top_def item_page_def anchor_def quad_def)
  have y1: "y_bounds (sps ! 1) = Inr (30, Some 40)"
    using nth [of 1] len4
    by (simp add: example_outline_flatten)
       (simp add: box_bottom_def box_top_def item_page_def anchor_def quad_def)
  have y2: "y_bounds (sps ! 2) = Inr (50, None)"
    using nth [of 2] len4
    by (simp add: example_outline_flatten)
       (simp add: box_bottom_def box_top_def item_page_def anchor_def quad_def)
  have y3: "y_bounds (sps ! 3) = Inr (15, None)"
    using nth [of 3] len4
    by (simp add: example_outline_flatten)
       (simp add: box_bottom_def box_top_def item_page_def anchor_def quad_def)
  have "map y_bounds sps = [y_bounds (sps ! 0), y_bounds (sps ! 1), y_bounds (sps ! 2), y_bounds (sps ! 3)]"
    using len4 by (auto simp: list_eq_iff_nth_eq nth_Cons numeral_2_eq_2 numeral_3_eq_3 split: nat.splits)
  with y0 y1 y2 y3 eq len4 show ?thesis by simp
qed

text \<open>
  Claim C2, as stated, fails: with the root and a part on one page, the root's span
  ends at 20, the top of the part's box, and the part's span starts at 30, the bottom
  of that box.
\<close>

theorem spans_gap_counterexample:
  "run_y_bounds [anchor 0 0 0 (quad 0 0 100 10)] [anchor 0 1 0 (quad 0 20 100 30)] [] []
     = Inr [Inr (10, Some 20), Inr (30, None)]"
  by code_simp

text \<open>
  Claim C2, amended. For two consecutive spans whose start anchors are on the same
  page, the earlier span ends at the top of the later span's anchor box and the later
  span starts at the bottom of that same box: the end of the earlier never lies below
  the start of the later, and the two are apart by the height of the box.
\<close>

theorem consecutive_spans_meet_at_anchor_box:
  assumes wf: "\<forall>it \<in> set (flatten t). 2 \<le> length (bounds (result it))"
    and sps: "spans_of (flatten t) = Inr sps"
    and i: "Suc i < length sps"
    and same: "item_page (start (sps ! i)) = item_page (start (sps ! Suc i))"
  shows "\<exists>y0 y1 y2 e2.
           y_bounds (sps ! i) = Inr (y0, Some y1) \<and> y_bounds (sps ! Suc i) = Inr (y2, e2) \<and>
           y1 = box_top (start (sps ! Suc i)) \<and> y2 = box_bottom (start (sps ! Suc i)) \<and>
           y1 \<le> y2"
proof -
  from spans_of_flatten [OF wf] sps have
    len: "length sps = length (flatten t)" and
    nth: "\<And>k. k < length sps \<Longrightarrow>
      start (sps ! k) = flatten t ! k \<and>
      y_bounds (sps ! k) =
        Inr (box_bottom (flatten t ! k),
             if Suc k < length (flatten t) \<and> item_page (flatten t ! k) = item_page (flatten t ! Suc k)
             then Some (box_top (flatten t ! Suc k)) else None)"
    by auto
  from i have i0: "i < length sps" by simp
  have s0: "start (sps ! i) = flatten t ! i" and s1: "start (sps ! Suc i) = flatten t ! Suc i"
    using nth [OF i0] nth [OF i] by simp_all
  have b0: "y_bounds (sps ! i) = Inr (box_bottom (flatten t ! i), Some (box_top (flatten t ! Suc i)))"
    using nth [OF i0] i len same s0 s1 by simp
  have b1: "\<exists>e2. y_bounds (sps ! Suc i) = Inr (box_bottom (flatten t ! Suc i), e2)"
    using nth [OF i] by simp
  have "flatten t ! Suc i \<in> set (flatten t)" using i len by simp
  with wf have "bounds (result (flatten t ! Suc i)) \<noteq> []" by fastforce
  then have le: "box_top (flatten t ! Suc i) \<le> box_bottom (flatten t ! Suc i)"
    by (rule box_top_le_bottom)
  show ?thesis using b0 b1 le s1 by auto
qed

theorem consecutive_spans_meet_at_anchor_box_witness:
  "\<exists>sps. spans_of (flatten example_outline) = Inr sps \<and>
     y_bounds (sps ! 0) = Inr (10, Some 20) \<and> fst (projr (y_bounds (sps ! 1))) = 30"
proof -
  from spans_of_flatten [OF example_outline_boxes] obtain sps where
    eq: "spans_of (flatten example_outline) = Inr sps" and
    len: "length sps = length (flatten example_outline)" and
    st: "\<And>k. k < length sps \<Longrightarrow> start (sps ! k) = flatten example_outline ! k"
    by blast
  have len4: "length sps = 4" using len by (simp add: example_outline_flatten)
  have i: "Suc 0 < length sps" using len4 by simp
  have s0: "start (sps ! 0) = flatten example_outline ! 0"
    and s1: "start (sps ! Suc 0) = flatten example_outline ! Suc 0"
    using st [of 0] st [of "Suc 0"] len4 by simp_all
  have same: "item_page (start (sps ! 0)) = item_page (start (sps ! Suc 0))"
    unfolding s0 s1
    by (simp add: example_outline_flatten)
       (simp add: example_outline_def item_page_def anchor_def)
  from consecutive_spans_meet_at_anchor_box [OF example_outline_boxes eq i same]
  obtain y0 y1 y2 e2 where
    b0: "y_bounds (sps ! 0) = Inr (y0, Some y1)" and b1: "y_bounds (sps ! Suc 0) = Inr (y2, e2)" and
    y1: "y1 = box_top (start (sps ! Suc 0))" and y2: "y2 = box_bottom (start (sps ! Suc 0))"
    by blast
  have "y1 = 20" unfolding y1 s1
    by (simp add: example_outline_flatten) (simp add: box_top_def anchor_def quad_def)
  moreover have "y2 = 30" unfolding y2 s1
    by (simp add: example_outline_flatten) (simp add: box_bottom_def anchor_def quad_def)
  moreover have "y0 = 10"
  proof -
    have "max_y (start (sps ! 0)) = Inr 10" unfolding s0
      by (simp add: example_outline_flatten)
         (simp add: example_outline_def max_y_def max_star_def anchor_def quad_def)
    with b0 show ?thesis
      by (auto simp: y_bounds_def rbind_def split: option.splits if_splits sum.splits)
  qed
  ultimately show ?thesis using eq b0 b1 by auto
qed

subsection \<open>The parent search\<close>

lemma find_parent_for_unfold:
  "find_parent_for self d pt =
     (case scan_children d (children self) 0 of
        Inl e \<Rightarrow> Inl e
      | Inr None \<Rightarrow> Inl RuntimeError
      | Inr (Some j) \<Rightarrow>
          (if cls (children self ! j) = pt then Inr [j]
           else (case find_parent_for (children self ! j) d pt of
                   Inl e \<Rightarrow> Inl e
                 | Inr path \<Rightarrow> Inr (j # path))))"
  by (rule find_parent_for.simps)

lemma find_parent_for_path:
  "find_parent_for self d pt = Inr path \<Longrightarrow>
     path \<noteq> [] \<and> valid_path self path \<and> cls (item_at self path) = pt"
proof (induction self d pt arbitrary: path rule: find_parent_for.induct)
  case (1 self d pt)
  from "1.prems" obtain j where scan: "scan_children d (children self) 0 = Inr (Some j)"
    by (subst (asm) find_parent_for_unfold) (auto split: sum.splits option.splits)
  have j: "j < length (children self)"
    using scan_children_bound [OF scan] by simp
  show ?case
  proof (cases "cls (children self ! j) = pt")
    case True
    with "1.prems" scan have "path = [j]"
      by (subst (asm) find_parent_for_unfold) simp
    with True j show ?thesis by simp
  next
    case False
    with "1.prems" scan obtain p' where
      rec: "find_parent_for (children self ! j) d pt = Inr p'" and path: "path = j # p'"
      by (subst (asm) find_parent_for_unfold) (auto split: sum.splits)
    from "1.IH" [OF scan refl False rec] j path show ?thesis by simp
  qed
qed

lemma item_at_in_flatten: "valid_path t p \<Longrightarrow> item_at t p \<in> set (flatten t)"
proof (induction p arbitrary: t)
  case Nil
  then show ?case by (simp add: flatten_unfold [of t])
next
  case (Cons j p)
  then have j: "j < length (children t)" and v: "valid_path (children t ! j) p" by simp_all
  from Cons.IH [OF v] have "item_at (children t ! j) p \<in> set (flatten (children t ! j))" .
  moreover have "children t ! j \<in> set (children t)" using j by simp
  ultimately show ?case by (subst flatten_unfold) auto
qed

lemma item_at_descendant:
  "valid_path t p \<Longrightarrow> p \<noteq> [] \<Longrightarrow> item_at t p \<in> set (concat (map flatten (children t)))"
proof (cases p)
  case Nil
  assume "p \<noteq> []"
  with Nil show ?thesis by simp
next
  case (Cons j q)
  assume "valid_path t p"
  with Cons have j: "j < length (children t)" and v: "valid_path (children t ! j) q" by simp_all
  from item_at_in_flatten [OF v] have "item_at (children t ! j) q \<in> set (flatten (children t ! j))" .
  moreover have "children t ! j \<in> set (children t)" using j by simp
  ultimately show ?thesis using Cons by auto
qed

lemma item_at_add_at: "valid_path t p \<Longrightarrow> item_at (add_at t p c) p = add (item_at t p) c"
  by (induction p arbitrary: t) simp_all

lemma find_parent_for_no_children:
  "children self = [] \<Longrightarrow> find_parent_for self d pt = Inl RuntimeError"
  by (subst find_parent_for_unfold) simp

text \<open>
  Claim C9. A node without children makes the parent search raise the RuntimeError, and
  so does, by an error of some kind, every tree with no node of the required class below
  the starting node; a parent that is returned is a node below the starting node and of
  the required class. A round of the building loop either leaves the tree as it is (the
  anchor lies before the root) or appends the new item to the children of exactly that
  returned parent.
\<close>

theorem find_parent_for_typed_or_error:
  "(children self = [] \<longrightarrow> find_parent_for self d pt = Inl RuntimeError) \<and>
   ((\<forall>it \<in> set (concat (map flatten (children self))). cls it \<noteq> pt) \<longrightarrow>
      (\<exists>e. find_parent_for self d pt = Inl e)) \<and>
   (\<forall>path. find_parent_for self d pt = Inr path \<longrightarrow>
      path \<noteq> [] \<and> valid_path self path \<and> cls (item_at self path) = pt) \<and>
   (\<forall>contents'. build_child ct pt self r = Inr contents' \<longrightarrow>
      contents' = self \<or>
      (\<exists>path. find_parent_for self (ContentsItem ct r None []) pt = Inr path \<and>
         cls (item_at self path) = pt \<and>
         contents' = add_at self path (ContentsItem ct r None []) \<and>
         item_at contents' path = add (item_at self path) (ContentsItem ct r None [])))"
proof -
  have c1: "children self = [] \<longrightarrow> find_parent_for self d pt = Inl RuntimeError"
    by (simp add: find_parent_for_no_children)
  have c2: "(\<forall>it \<in> set (concat (map flatten (children self))). cls it \<noteq> pt) \<longrightarrow>
      (\<exists>e. find_parent_for self d pt = Inl e)"
  proof
    assume none: "\<forall>it \<in> set (concat (map flatten (children self))). cls it \<noteq> pt"
    show "\<exists>e. find_parent_for self d pt = Inl e"
    proof (cases "find_parent_for self d pt")
      case (Inl e)
      then show ?thesis by simp
    next
      case (Inr path)
      from find_parent_for_path [OF Inr] item_at_descendant [of self path] none
      show ?thesis by blast
    qed
  qed
  have c3: "\<forall>path. find_parent_for self d pt = Inr path \<longrightarrow>
      path \<noteq> [] \<and> valid_path self path \<and> cls (item_at self path) = pt"
    using find_parent_for_path by blast
  let ?new = "ContentsItem ct r None []"
  have c4: "\<forall>contents'. build_child ct pt self r = Inr contents' \<longrightarrow>
      contents' = self \<or>
      (\<exists>path. find_parent_for self ?new pt = Inr path \<and>
         cls (item_at self path) = pt \<and>
         contents' = add_at self path ?new \<and>
         item_at contents' path = add (item_at self path) ?new)"
  proof (intro allI impI)
    fix contents'
    assume b: "build_child ct pt self r = Inr contents'"
    show "contents' = self \<or>
        (\<exists>path. find_parent_for self ?new pt = Inr path \<and>
           cls (item_at self path) = pt \<and>
           contents' = add_at self path ?new \<and>
           item_at contents' path = add (item_at self path) ?new)"
    proof (cases "contents' = self")
      case True
      then show ?thesis by simp
    next
      case False
      with b obtain path where
        f: "find_parent_for self ?new pt = Inr path" and c: "contents' = add_at self path ?new"
        by (auto simp: build_child_def Let_def rbind_def split: sum.splits if_splits)
      from find_parent_for_path [OF f] have v: "valid_path self path"
        and k: "cls (item_at self path) = pt" by simp_all
      from item_at_add_at [OF v] c f k show ?thesis by simp
    qed
  qed
  from c1 c2 c3 c4 show ?thesis by blast
qed

theorem find_parent_for_typed_or_error_witness:
  "find_parent_for (ContentsItem TableOfContents (anchor 0 0 0 (quad 0 0 100 10)) None [])
       (ContentsItem Chapter (anchor 0 2 0 (quad 0 40 100 50)) None []) Part = Inl RuntimeError
   \<and> (\<exists>e. find_parent_for
         (ContentsItem TableOfContents (anchor 0 0 0 (quad 0 0 100 10)) None
            [ContentsItem Part (anchor 0 1 0 (quad 0 20 100 30)) (Some 1) []])
         (ContentsItem Section (anchor 0 3 0 (quad 0 60 100 70)) None []) Chapter = Inl e)
   \<and> cls (item_at example_outline [0, 0]) = Chapter
   \<and> item_at (projr (build_child Section Chapter example_outline (anchor 0 3 0 (quad 0 60 100 70))))
        [0, 0]
      = add (item_at example_outline [0, 0])
          (ContentsItem Section (anchor 0 3 0 (quad 0 60 100 70)) None [])"
proof -
  let ?leaf = "ContentsItem TableOfContents (anchor 0 0 0 (quad 0 0 100 10)) None []"
  let ?chap = "ContentsItem Chapter (anchor 0 2 0 (quad 0 40 100 50)) None []"
  let ?flat = "ContentsItem TableOfContents (anchor 0 0 0 (quad 0 0 100 10)) None
            [ContentsItem Part (anchor 0 1 0 (quad 0 20 100 30)) (Some 1) []]"
  let ?r = "anchor 0 3 0 (quad 0 60 100 70)"
  let ?sec = "ContentsItem Section ?r None []"
  have "children ?leaf = []" by simp
  with find_parent_for_typed_or_error [of ?leaf ?chap Part]
  have w1: "find_parent_for ?leaf ?chap Part = Inl RuntimeError" by blast
  have "\<forall>it \<in> set (concat (map flatten (children ?flat))). cls it \<noteq> Chapter" by simp
  with find_parent_for_typed_or_error [of ?flat ?sec Chapter]
  have w2: "\<exists>e. find_parent_for ?flat ?sec Chapter = Inl e" by blast
  have f: "find_parent_for example_outline ?sec Chapter = Inr [0, 0]" by code_simp
  with find_parent_for_typed_or_error [of example_outline ?sec Chapter]
  have w3: "cls (item_at example_outline [0, 0]) = Chapter" by blast
  have ne: "add_at example_outline [0, 0] ?sec \<noteq> example_outline" by code_simp
  have b: "build_child Section Chapter example_outline ?r
         = Inr (add_at example_outline [0, 0] ?sec)"
    using f by (simp add: build_child_def Let_def rbind_def) code_simp
  with find_parent_for_typed_or_error [of example_outline ?sec Chapter Section ?r] ne f
  have "item_at (add_at example_outline [0, 0] ?sec) [0, 0]
        = add (item_at example_outline [0, 0]) ?sec"
    by auto
  with b have w4: "item_at (projr (build_child Section Chapter example_outline ?r)) [0, 0]
        = add (item_at example_outline [0, 0]) ?sec"
    by simp
  from w1 w2 w3 w4 show ?thesis by blast
qed

subsection \<open>Anchors at the same position\<close>

text \<open>
  Claim C4, as stated, fails: a chapter anchor with the four keys of the only part is
  compared with it, the comparison is None, and the loop of \<^verbatim>\<open>build_chapters\<close>
  returns normally with the chapter attached to that part, as for a chapter that follows
  the part.
\<close>

theorem tie_attached_silently_counterexample:
  "is_before (ContentsItem Chapter (anchor 1 0 0 (quad 60 5 90 9)) None [])
             (ContentsItem Part (anchor 1 0 0 (quad 0 5 50 9)) (Some 1) []) = Inr None
   \<and> build_child Chapter Part
        (ContentsItem TableOfContents (anchor 0 0 0 (quad 0 0 100 10)) None
           [ContentsItem Part (anchor 1 0 0 (quad 0 5 50 9)) (Some 1) []])
        (anchor 1 0 0 (quad 60 5 90 9))
      = Inr (ContentsItem TableOfContents (anchor 0 0 0 (quad 0 0 100 10)) None
              [ContentsItem Part (anchor 1 0 0 (quad 0 5 50 9)) (Some 1)
                 [ContentsItem Chapter (anchor 1 0 0 (quad 60 5 90 9)) (Some 1) []]])"
  by code_simp

text \<open>
  Claim C4, amended. When the new anchor and a child are equal on all four keys, the
  comparison is None and the scan of the parent search treats it as "not before": it
  goes on to the next child as it does for a child that precedes the anchor, and the
  child is returned as the parent when it is the only child and has the required class.
  Nothing in the result tells the tie apart.
\<close>

theorem tie_is_passed_over:
  assumes "2 \<le> length (bounds (result d))" and "2 \<le> length (bounds (result c))"
    and "ordering_keys d = ordering_keys c"
  shows "is_before d c = Inr None \<and>
         scan_children d (c # cs) i = scan_children d cs (Suc i) \<and>
         find_parent_for (ContentsItem k r n [c]) d (cls c) = Inr [0]"
proof -
  have ya: "min_y d = Inr (box_top d)" and yb: "min_y c = Inr (box_top c)"
    using assms by (simp_all add: min_y_box_top)
  have tie: "is_before d c = Inr None"
    using assms(3) by (simp add: is_before_def ordering_keys_def ya yb rbind_def)
  then have scan: "scan_children d (c # cs) i = scan_children d cs (Suc i)" for cs i
    by (simp add: rbind_def truthy_def)
  have s0: "scan_children d [c] 0 = Inr (Some 0)"
    using tie by (simp add: rbind_def truthy_def)
  have "find_parent_for (ContentsItem k r n [c]) d (cls c) = Inr [0]"
    by (subst find_parent_for_unfold) (simp add: s0 del: scan_children.simps)
  with tie scan show ?thesis by simp
qed

theorem tie_is_passed_over_witness:
  "is_before (ContentsItem Chapter (anchor 1 0 0 (quad 60 5 90 9)) None [])
             (ContentsItem Part (anchor 1 0 0 (quad 0 5 50 9)) (Some 1) []) = Inr None
   \<and> find_parent_for
        (ContentsItem TableOfContents (anchor 0 0 0 (quad 0 0 100 10)) None
           [ContentsItem Part (anchor 1 0 0 (quad 0 5 50 9)) (Some 1) []])
        (ContentsItem Chapter (anchor 1 0 0 (quad 60 5 90 9)) None []) Part = Inr [0]"
proof -
  let ?d = "ContentsItem Chapter (anchor 1 0 0 (quad 60 5 90 9)) None []"
  let ?c = "ContentsItem Part (anchor 1 0 0 (quad 0 5 50 9)) (Some 1) []"
  have ld: "2 \<le> length (bounds (result ?d))" by (simp add: anchor_def quad_def)
  have lc: "2 \<le> length (bounds (result ?c))" by (simp add: anchor_def quad_def)
  have keys: "ordering_keys ?d = ordering_keys ?c"
    by (simp add: ordering_keys_def item_page_def item_block_def item_paragraph_def
        box_top_def anchor_def quad_def)
  from tie_is_passed_over [OF ld lc keys, of "[]" 0 TableOfContents
      "anchor 0 0 0 (quad 0 0 100 10)" None]
  show ?thesis by simp
qed

section \<open>Properties of the word grouper\<close>

lemma rbind_Inr [simp]: "rbind (Inr x) f = f x"
  by (simp add: rbind_def)

lemma rbind_Inl [simp]: "rbind (Inl e) f = Inl e"
  by (simp add: rbind_def)

lemma rbind_assoc: "rbind (rbind m f) g = rbind m (\<lambda>x. rbind (f x) g)"
  by (cases m) simp_all

lemma collect_read:
  assumes "\<forall>c \<in> set cs. cb c = rbind (V c) (\<lambda>b. Inr (b, T c))"
  shows "collect (read cb p) cs = rbind (each (\<lambda>c. rbind (V c) p) cs) (\<lambda>vs. Inr (vs, map T cs))"
  using assms
proof (induction cs)
  case Nil
  then show ?case by simp
next
  case (Cons c cs)
  then have c: "cb c = rbind (V c) (\<lambda>b. Inr (b, T c))" by simp
  from Cons have IH: "collect (read cb p) cs = rbind (each (\<lambda>c. rbind (V c) p) cs) (\<lambda>vs. Inr (vs, map T cs))"
    by simp
  have r: "read cb p c = rbind (V c) (\<lambda>b. rbind (p b) (\<lambda>v. Inr (v, T c)))"
    by (simp add: read_def c rbind_assoc)
  show ?case
    by (simp add: r IH rbind_assoc)
qed

lemma each_cong_set: "(\<And>x. x \<in> set xs \<Longrightarrow> f x = g x) \<Longrightarrow> each f xs = each g xs"
  by (induction xs) simp_all

lemma each_map: "each f (map h xs) = each (\<lambda>x. f (h x)) xs"
  by (induction xs) simp_all

lemma each_Inr_all: "each f xs = Inr ys \<Longrightarrow> x \<in> set xs \<Longrightarrow> \<exists>y. f x = Inr y"
  by (induction xs arbitrary: ys) (auto simp: rbind_def split: sum.splits)

lemma grouped_bounds_None:
  assumes A1: "\<forall>c \<in> set cs. cb c = rbind (V c) (\<lambda>b. Inr (b, T c))"
    and A2: "\<forall>c \<in> set cs. \<forall>b. V c = Inr b \<longrightarrow> V (T c) = Inr b \<and> cb (T c) = Inr (b, T c) \<and> T (T c) = T c"
  shows "grouped_bounds cb \<lparr>g_children = cs, g_bounds = None\<rparr> =
           rbind (pure_bounds (map V cs)) (\<lambda>b. Inr (b, \<lparr>g_children = map T cs, g_bounds = Some b\<rparr>))"
proof (cases "each (\<lambda>c. rbind (V c) element_min_x) cs")
  case (Inl e)
  then show ?thesis
    by (simp add: grouped_bounds_def collect_read [OF A1] pure_bounds_def each_map)
next
  case (Inr min_xs)
  have allV: "\<exists>b. V c = Inr b" if "c \<in> set cs" for c
    using each_Inr_all [OF Inr that] by (cases "V c") auto
  have fixT: "V (T c) = V c \<and> cb (T c) = rbind (V c) (\<lambda>b. Inr (b, T c)) \<and> T (T c) = T c"
    if "c \<in> set cs" for c
    using allV [OF that] A2 that by auto
  have A1': "\<forall>c \<in> set (map T cs). cb c = rbind (V c) (\<lambda>b. Inr (b, T c))"
    using fixT by auto
  have mapT: "map T (map T cs) = map T cs" using fixT by simp
  have e: "each (\<lambda>c. rbind (V c) p) (map T cs) = each (\<lambda>c. rbind (V c) p) cs" for p :: "box \<Rightarrow> error + rat"
    unfolding each_map by (rule each_cong_set) (simp add: fixT)
  have first: "collect (read cb element_min_x) cs = Inr (min_xs, map T cs)"
    by (simp add: collect_read [OF A1] Inr)
  have pass: "collect (read cb p) (map T cs) =
      rbind (each (\<lambda>c. rbind (V c) p) cs) (\<lambda>vs. Inr (vs, map T cs))" for p :: "box \<Rightarrow> error + rat"
    by (simp only: collect_read [OF A1'] e mapT)
  have pb: "pure_bounds (map V cs) =
     rbind (each (\<lambda>c. rbind (V c) element_max_x) cs) (\<lambda>max_xs.
     rbind (each (\<lambda>c. rbind (V c) element_min_y) cs) (\<lambda>min_ys.
     rbind (each (\<lambda>c. rbind (V c) element_max_y) cs) (\<lambda>max_ys.
       Inr [(list_min min_xs, list_min min_ys), (list_min min_xs, list_max max_ys),
            (list_max max_xs, list_max max_ys), (list_max max_xs, list_min min_ys)])))"
    by (simp add: pure_bounds_def each_map Inr)
  show ?thesis
    unfolding pb by (simp add: grouped_bounds_def first pass Let_def rbind_assoc)
qed

lemma grouped_eq: "(l :: 'c grouped) = \<lparr>g_children = g_children l, g_bounds = g_bounds l\<rparr>"
  by simp

lemma line_bounds_fresh:
  "line_bounds \<lparr>g_children = ws, g_bounds = None\<rparr> =
     rbind (pure_bounds (map (\<lambda>w. Inr (wbox w)) ws))
       (\<lambda>b. Inr (b, \<lparr>g_children = ws, g_bounds = Some b\<rparr>))"
proof -
  have "grouped_bounds word_bounds \<lparr>g_children = ws, g_bounds = None\<rparr> =
     rbind (pure_bounds (map (\<lambda>w. Inr (wbox w)) ws))
       (\<lambda>b. Inr (b, \<lparr>g_children = map (\<lambda>w. w) ws, g_bounds = Some b\<rparr>))"
    by (rule grouped_bounds_None) (simp_all add: word_bounds_def wbox_def)
  then show ?thesis by (simp add: line_bounds_def)
qed

lemma line_box_pure: "line_box ws = pure_bounds (map (\<lambda>w. Inr (wbox w)) ws)"
  by (cases "pure_bounds (map (\<lambda>w. Inr (wbox w)) ws)")
     (simp_all add: line_box_def fresh_def line_bounds_fresh)

lemma line_bounds_cached:
  "g_bounds l = Some b \<Longrightarrow> line_bounds l = Inr (b, l)"
  by (simp add: line_bounds_def grouped_bounds_def)

lemma line_bounds_ok:
  assumes "line_ok l"
  shows "line_bounds l = rbind (line_box (g_children l)) (\<lambda>b. Inr (b, touch l))"
proof (cases "g_bounds l")
  case None
  then have l: "l = \<lparr>g_children = g_children l, g_bounds = None\<rparr>" by simp
  have lb: "line_bounds l = rbind (line_box (g_children l))
       (\<lambda>b. Inr (b, \<lparr>g_children = g_children l, g_bounds = Some b\<rparr>))"
    by (subst l) (simp add: line_bounds_fresh line_box_pure)
  show ?thesis
    by (cases "line_box (g_children l)") (simp_all add: lb touch_def)
next
  case (Some b)
  with assms have "line_box (g_children l) = Inr b" by (simp add: line_ok_def)
  then show ?thesis using line_bounds_cached [OF Some] by (simp add: touch_def)
qed

lemma touch_props:
  assumes "line_ok l" and "line_box (g_children l) = Inr b"
  shows "touch l = \<lparr>g_children = g_children l, g_bounds = Some b\<rparr>"
proof (cases "g_bounds l")
  case None
  then have l: "l = \<lparr>g_children = g_children l, g_bounds = None\<rparr>" by simp
  have "line_bounds l = Inr (b, \<lparr>g_children = g_children l, g_bounds = Some b\<rparr>)"
    using assms(2) by (subst l) (simp add: line_bounds_fresh line_box_pure)
  then show ?thesis by (simp add: touch_def)
next
  case (Some c)
  with assms have "c = b" by (simp add: line_ok_def)
  with Some show ?thesis using line_bounds_cached [OF Some] by (simp add: touch_def)
qed

lemma touch_children [simp]: "line_ok l \<Longrightarrow> g_children (touch l) = g_children l"
proof (cases "line_box (g_children l)")
  case (Inl e)
  assume "line_ok l"
  from line_bounds_ok [OF this] Inl show ?thesis by (simp add: touch_def)
next
  case (Inr b)
  assume "line_ok l"
  from touch_props [OF this Inr] show ?thesis by simp
qed

lemma touch_ok: "line_ok l \<Longrightarrow> line_ok (touch l)"
proof (cases "line_box (g_children l)")
  case (Inl e)
  assume ok: "line_ok l"
  from line_bounds_ok [OF this] Inl have "touch l = l" by (simp add: touch_def)
  with ok show ?thesis by simp
next
  case (Inr b)
  assume "line_ok l"
  from touch_props [OF this Inr] Inr show ?thesis by (simp add: line_ok_def)
qed

lemma touch_touch: "line_ok l \<Longrightarrow> touch (touch l) = touch l"
proof (cases "line_box (g_children l)")
  case (Inl e)
  assume ok: "line_ok l"
  from line_bounds_ok [OF this] Inl have "touch l = l" by (simp add: touch_def)
  then show ?thesis by simp
next
  case (Inr b)
  assume ok: "line_ok l"
  from touch_props [OF ok Inr] have t: "touch l = \<lparr>g_children = g_children l, g_bounds = Some b\<rparr>" .
  have "line_bounds (touch l) = Inr (b, touch l)"
    by (rule line_bounds_cached) (simp add: t)
  then show ?thesis by (simp add: touch_def [of "touch l"])
qed

lemma group_bounds_ok:
  assumes "\<forall>l \<in> set ls. line_ok l"
  shows "group_bounds \<lparr>g_children = ls, g_bounds = None\<rparr> =
           rbind (pure_bounds (map (\<lambda>l. line_box (g_children l)) ls))
             (\<lambda>b. Inr (b, \<lparr>g_children = map touch ls, g_bounds = Some b\<rparr>))"
  unfolding group_bounds_def
proof (rule grouped_bounds_None)
  show "\<forall>c\<in>set ls. line_bounds c = rbind (line_box (g_children c)) (\<lambda>b. Inr (b, touch c))"
    using assms line_bounds_ok by blast
  show "\<forall>c\<in>set ls. \<forall>b. line_box (g_children c) = Inr b \<longrightarrow>
       line_box (g_children (touch c)) = Inr b \<and> line_bounds (touch c) = Inr (b, touch c) \<and>
       touch (touch c) = touch c"
  proof (intro ballI allI impI)
    fix c b assume c: "c \<in> set ls" and b: "line_box (g_children c) = Inr b"
    from assms c have ok: "line_ok c" by blast
    have "line_bounds (touch c) = Inr (b, touch c)"
      by (rule line_bounds_cached) (simp add: touch_props [OF ok b])
    with ok b touch_touch [OF ok]
    show "line_box (g_children (touch c)) = Inr b \<and> line_bounds (touch c) = Inr (b, touch c) \<and>
       touch (touch c) = touch c" by simp
  qed
qed

lemma group_box_pure: "group_box wss = pure_bounds (map line_box wss)"
proof -
  have ok: "\<forall>l \<in> set (map fresh wss). line_ok l" by (auto simp: line_ok_def fresh_def)
  have m: "map (\<lambda>l. line_box (g_children l)) (map fresh wss) = map line_box wss"
    by (simp add: fresh_def)
  show ?thesis
    unfolding group_box_def fresh_def [of "map fresh wss"] group_bounds_ok [OF ok] m
    by (cases "pure_bounds (map line_box wss)") simp_all
qed

lemma sorted_py_num: "None \<notin> set vs \<Longrightarrow> \<exists>us. sorted_py vs = Inr us \<and> None \<notin> set us"
  by (auto simp: sorted_py_def)

lemma sum_py_num: "None \<notin> set vs \<Longrightarrow> \<exists>r. sum_py vs = Inr r"
  by (simp add: sum_py_def)

lemma halves_num:
  assumes "None \<notin> set vs"
  shows "\<exists>r. rbind (sorted_py vs) (\<lambda>us. rbind (sum_py (take 2 us)) (\<lambda>s. Inr (s / 2))) = Inr r"
    and "\<exists>r. rbind (sorted_py vs) (\<lambda>us. rbind (sum_py (drop 2 us)) (\<lambda>s. Inr (s / 2))) = Inr r"
proof -
  from sorted_py_num [OF assms] obtain us where us: "sorted_py vs = Inr us" "None \<notin> set us"
    by blast
  have "None \<notin> set (take 2 us)" using us(2) by (auto dest: in_set_takeD)
  from sum_py_num [OF this] obtain r where "sum_py (take 2 us) = Inr r" by blast
  then have "rbind (sorted_py vs) (\<lambda>us. rbind (sum_py (take 2 us)) (\<lambda>s. Inr (s / 2))) = Inr (r / 2)"
    by (simp add: us(1))
  then show "\<exists>r. rbind (sorted_py vs) (\<lambda>us. rbind (sum_py (take 2 us)) (\<lambda>s. Inr (s / 2))) = Inr r"
    by (rule exI)
  have "None \<notin> set (drop 2 us)" using us(2) by (auto dest: in_set_dropD)
  from sum_py_num [OF this] obtain r where "sum_py (drop 2 us) = Inr r" by blast
  then have "rbind (sorted_py vs) (\<lambda>us. rbind (sum_py (drop 2 us)) (\<lambda>s. Inr (s / 2))) = Inr (r / 2)"
    by (simp add: us(1))
  then show "\<exists>r. rbind (sorted_py vs) (\<lambda>us. rbind (sum_py (drop 2 us)) (\<lambda>s. Inr (s / 2))) = Inr r"
    by (rule exI)
qed

lemma numeric_axes: "numeric b \<Longrightarrow> None \<notin> set (map fst b) \<and> None \<notin> set (map snd b)"
  by (force simp: numeric_def)

lemma element_num:
  assumes "numeric b"
  shows "\<exists>r. element_min_x b = Inr r" and "\<exists>r. element_max_x b = Inr r"
    and "\<exists>r. element_min_y b = Inr r" and "\<exists>r. element_max_y b = Inr r"
  using halves_num [of "map fst b"] halves_num [of "map snd b"] numeric_axes [OF assms]
  by (simp_all add: element_min_x_def element_max_x_def element_min_y_def element_max_y_def
      x_coordinates_def y_coordinates_def coordinates_def)

lemma element_num2:
  assumes "numeric b"
  shows "\<exists>r. element_height b = Inr r" and "\<exists>r. element_width b = Inr r"
    and "\<exists>r. element_center b = Inr r"
proof -
  from element_num [OF assms] obtain x0 x1 y0 y1 where
    v: "element_min_x b = Inr x0" "element_max_x b = Inr x1"
       "element_min_y b = Inr y0" "element_max_y b = Inr y1" by blast
  show "\<exists>r. element_height b = Inr r" by (simp add: element_height_def v)
  show "\<exists>r. element_width b = Inr r" by (simp add: element_width_def v)
  show "\<exists>r. element_center b = Inr r"
    by (simp add: element_center_def element_center_x_def element_center_y_def
        element_height_def element_width_def v)
qed

lemma numeric_wbox: "numeric (wbox w)"
  by (auto simp: numeric_def wbox_def)

lemma each_total:
  "\<forall>x \<in> set xs. \<exists>y. f x = Inr y \<Longrightarrow> \<exists>ys. each f xs = Inr ys \<and> length ys = length xs"
proof (induction xs)
  case Nil
  then show ?case by simp
next
  case (Cons x xs)
  then obtain y ys where "f x = Inr y" "each f xs = Inr ys" "length ys = length xs" by auto
  then show ?case by simp
qed

lemma list_min_Some: "vs \<noteq> [] \<Longrightarrow> \<exists>r. list_min vs = Some r"
  by (simp add: list_min_def)

lemma list_max_Some: "vs \<noteq> [] \<Longrightarrow> \<exists>r. list_max vs = Some r"
  by (simp add: list_max_def)

lemma pure_bounds_num:
  assumes ne: "vs \<noteq> []" and all: "\<forall>v \<in> set vs. \<exists>b. v = Inr b \<and> numeric b"
  shows "\<exists>b. pure_bounds vs = Inr b \<and> numeric b"
proof -
  have tot: "\<exists>rs. each (\<lambda>v. rbind v p) vs = Inr rs \<and> rs \<noteq> []"
    if p: "\<And>b. numeric b \<Longrightarrow> \<exists>r. p b = Inr r" for p :: "box \<Rightarrow> error + rat"
  proof -
    have "\<forall>v \<in> set vs. \<exists>y. rbind v p = Inr y"
    proof
      fix v assume "v \<in> set vs"
      with all obtain b where "v = Inr b" "numeric b" by blast
      with p [of b] show "\<exists>y. rbind v p = Inr y" by simp
    qed
    from each_total [OF this] ne show ?thesis by auto
  qed
  from tot [of element_min_x] element_num(1) obtain a where
    a: "each (\<lambda>v. rbind v element_min_x) vs = Inr a" "a \<noteq> []" by blast
  from tot [of element_max_x] element_num(2) obtain b where
    b: "each (\<lambda>v. rbind v element_max_x) vs = Inr b" "b \<noteq> []" by blast
  from tot [of element_min_y] element_num(3) obtain c where
    c: "each (\<lambda>v. rbind v element_min_y) vs = Inr c" "c \<noteq> []" by blast
  from tot [of element_max_y] element_num(4) obtain d where
    d: "each (\<lambda>v. rbind v element_max_y) vs = Inr d" "d \<noteq> []" by blast
  from list_min_Some [OF a(2)] list_max_Some [OF b(2)] list_min_Some [OF c(2)]
    list_max_Some [OF d(2)]
  show ?thesis
    by (auto simp: pure_bounds_def a b c d numeric_def)
qed

lemma line_box_num: "ws \<noteq> [] \<Longrightarrow> \<exists>b. line_box ws = Inr b \<and> numeric b"
  unfolding line_box_pure by (rule pure_bounds_num) (auto simp: numeric_wbox)

lemma group_box_num:
  assumes "wss \<noteq> []" and "\<forall>ws \<in> set wss. ws \<noteq> []"
  shows "\<exists>b. group_box wss = Inr b \<and> numeric b"
  unfolding group_box_pure
proof (rule pure_bounds_num)
  show "map line_box wss \<noteq> []" using assms by simp
  show "\<forall>v\<in>set (map line_box wss). \<exists>b. v = Inr b \<and> numeric b"
    using assms(2) line_box_num by auto
qed

lemma read_word: "read word_bounds p w = rbind (p (wbox w)) (\<lambda>v. Inr (v, w))"
  by (simp add: read_def word_bounds_def wbox_def)

lemma read_line_ok:
  "line_ok l \<Longrightarrow>
     read line_bounds p l = rbind (line_box (g_children l)) (\<lambda>b. rbind (p b) (\<lambda>v. Inr (v, touch l)))"
  by (simp add: read_def line_bounds_ok rbind_assoc)

lemma word_in_line_eval:
  assumes ok: "line_ok l" and lb: "line_box (g_children l) = Inr b"
    and lc: "element_center b = Inr lc" and wc: "element_center (wbox w) = Inr wc"
    and lh: "element_height b = Inr lh" and wh: "element_height (wbox w) = Inr wh"
    and wx: "element_min_x (wbox w) = Inr wx" and lx: "element_max_x b = Inr lx"
  shows "word_in_line th w l =
           rbind (slope lc wc) (\<lambda>s.
             Inr (s \<le> th KLineSlope \<and> \<bar>wh - lh\<bar> \<le> th KHeight \<and> \<bar>wx - lx\<bar> < th KWord, touch l))"
proof -
  have ok': "line_ok (touch l)" and lb': "line_box (g_children (touch l)) = Inr b"
    and tt: "touch (touch l) = touch l"
    using ok lb touch_ok touch_touch by simp_all
  have r1: "read line_bounds p l = rbind (p b) (\<lambda>v. Inr (v, touch l))" for p :: "box \<Rightarrow> error + 'v"
    by (simp add: read_line_ok [OF ok] lb)
  have r2: "read line_bounds p (touch l) = rbind (p b) (\<lambda>v. Inr (v, touch l))" for p :: "box \<Rightarrow> error + 'v"
    by (simp add: read_line_ok [OF ok'] lb' tt)
  have in_line: "is_in_line th w l =
      rbind (slope lc wc) (\<lambda>s. Inr (s \<le> th KLineSlope \<and> \<bar>wh - lh\<bar> \<le> th KHeight, touch l))"
    by (cases "slope lc wc")
       (auto simp: is_in_line_def r1 r2 read_word lc wc lh wh not_less)
  show ?thesis
    by (cases "slope lc wc")
       (auto simp: word_in_line_def in_line r2 read_word wx lx)
qed

lemma line_in_group_eval:
  assumes ok: "line_ok nl" and nb: "line_box (g_children nl) = Inr nb"
    and ny: "element_min_y nb = Inr ny"
    and none: "g_bounds g = None" and oks: "\<forall>l \<in> set (g_children g). line_ok l"
    and gb: "group_box (map g_children (g_children g)) = Inr gb"
    and gy: "element_max_y gb = Inr gy"
  shows "line_in_group th nl g =
           Inr (\<bar>ny - gy\<bar> \<le> th KGroup, touch nl,
                \<lparr>g_children = map touch (g_children g), g_bounds = Some gb\<rparr>)"
proof -
  from none have g: "g = \<lparr>g_children = g_children g, g_bounds = None\<rparr>" by simp
  have pb: "pure_bounds (map (\<lambda>l. line_box (g_children l)) (g_children g)) = Inr gb"
    using gb by (simp add: group_box_pure o_def)
  have "group_bounds g = Inr (gb, \<lparr>g_children = map touch (g_children g), g_bounds = Some gb\<rparr>)"
    by (subst g) (simp add: group_bounds_ok [OF oks] pb)
  then have rg: "read group_bounds element_max_y g =
      Inr (gy, \<lparr>g_children = map touch (g_children g), g_bounds = Some gb\<rparr>)"
    by (simp add: read_def gy)
  show ?thesis
    by (auto simp: line_in_group_def read_line_ok [OF ok] nb ny rg not_less)
qed

lemma words_of_snoc: "words_of (gs @ [g]) = words_of gs @ [map g_children (g_children g)]"
  by (simp add: words_of_def)

lemma words_of_snoc2:
  "words_of (gs @ [g] @ [h]) =
     words_of gs @ [map g_children (g_children g)] @ [map g_children (g_children h)]"
  by (simp add: words_of_def)

lemma words_of_butlast: "words_of (butlast gs) = butlast (words_of gs)"
  by (simp add: words_of_def map_butlast)

lemma words_of_split:
  "gs \<noteq> [] \<Longrightarrow> words_of gs = butlast (words_of gs) @ [map g_children (g_children (last gs))]"
proof -
  assume "gs \<noteq> []"
  then have "gs = butlast gs @ [last gs]" by simp
  then have "words_of gs = words_of (butlast gs @ [last gs])" by simp
  then show ?thesis by (simp only: words_of_snoc words_of_butlast)
qed

lemma last_words_of: "gs \<noteq> [] \<Longrightarrow> last (words_of gs) = map g_children (g_children (last gs))"
  by (simp add: words_of_def last_map)

lemma map_touch_children: "\<forall>l \<in> set ls. line_ok l \<Longrightarrow> map g_children (map touch ls) = map g_children ls"
  by (induction ls) simp_all

lemma group_step_eval:
  assumes inv: "step_inv gs"
    and l: "l = last (g_children (last gs))"
    and lb: "line_box (g_children l) = Inr b"
    and lc: "element_center b = Inr lc" and wc: "element_center (wbox w) = Inr wc"
    and lh: "element_height b = Inr lh" and wh: "element_height (wbox w) = Inr wh"
    and wx: "element_min_x (wbox w) = Inr wx" and lx: "element_max_x b = Inr lx"
    and nb: "line_box [w] = Inr nb" and ny: "element_min_y nb = Inr ny"
    and gb: "group_box (map g_children (g_children (last gs))) = Inr gb"
    and gy: "element_max_y gb = Inr gy"
    and s: "slope lc wc = Inr s"
  shows "\<exists>gs'. group_step th w gs = Inr gs' \<and> step_inv gs' \<and>
           words_of gs' =
             (if s \<le> th KLineSlope \<and> \<bar>wh - lh\<bar> \<le> th KHeight \<and> \<bar>wx - lx\<bar> < th KWord
              then into_last_line (words_of gs) w
              else if \<bar>ny - gy\<bar> \<le> th KGroup then into_last_group (words_of gs) w
              else as_new_group (words_of gs) w)"
proof -
  let ?g = "last gs" and ?ls = "g_children (last gs)"
  from inv have ne: "gs \<noteq> []" and none: "g_bounds ?g = None" and lne: "?ls \<noteq> []"
    and oks: "\<forall>l \<in> set ?ls. g_children l \<noteq> [] \<and> line_ok l"
    by (simp_all add: step_inv_def)
  have lin: "l \<in> set ?ls" using l lne by simp
  with oks have ok: "line_ok l" and wne: "g_children l \<noteq> []" by auto
  have snoc: "butlast ?ls @ [l] = ?ls" using l lne by simp
  have wil: "word_in_line th w l =
      Inr (s \<le> th KLineSlope \<and> \<bar>wh - lh\<bar> \<le> th KHeight \<and> \<bar>wx - lx\<bar> < th KWord, touch l)"
    by (simp add: word_in_line_eval [OF ok lb lc wc lh wh wx lx] s)
  let ?A = "s \<le> th KLineSlope \<and> \<bar>wh - lh\<bar> \<le> th KHeight \<and> \<bar>wx - lx\<bar> < th KWord"
  have lastw: "last (words_of gs) = map g_children ?ls" using ne by (rule last_words_of)
  have lastl: "last (map g_children ?ls) = g_children l" using l lne by (simp add: last_map)
  show ?thesis
  proof (cases ?A)
    case True
    let ?gs' = "butlast gs @ [?g\<lparr>g_children := butlast ?ls @ [add_child (touch l) w]\<rparr>]"
    have wilT: "word_in_line th w l = Inr (True, touch l)" using wil True by simp
    have step: "group_step th w gs = Inr ?gs'"
      using ne lne by (simp add: group_step_def Let_def wilT l [symmetric])
    have inv': "step_inv ?gs'"
      using none oks ok by (auto simp: step_inv_def add_child_def reset_bounds_def line_ok_def
          dest: in_set_butlastD)
    have c1: "map g_children (g_children (?g\<lparr>g_children := butlast ?ls @ [add_child (touch l) w]\<rparr>)) =
        butlast (map g_children ?ls) @ [g_children l @ [w]]"
      using ok by (simp add: add_child_def reset_bounds_def map_butlast)
    have "words_of ?gs' = butlast (words_of gs) @ [butlast (map g_children ?ls) @ [g_children l @ [w]]]"
      by (simp only: words_of_snoc words_of_butlast c1)
    then have "words_of ?gs' = into_last_line (words_of gs) w"
      by (simp only: into_last_line_def lastw lastl)
    with step inv' True show ?thesis by simp
  next
    case False
    have wilF: "word_in_line th w l = Inr (False, touch l)" using wil False by simp
    let ?nl = "add_child new_grouped w"
    let ?grp1 = "?g\<lparr>g_children := butlast ?ls @ [touch l]\<rparr>"
    have nlok: "line_ok ?nl" by (simp add: line_ok_def add_child_def new_grouped_def reset_bounds_def)
    have nlc: "g_children ?nl = [w]" by (simp add: add_child_def new_grouped_def reset_bounds_def)
    have oks1: "\<forall>l \<in> set (g_children ?grp1). line_ok l"
      using oks ok touch_ok by (auto dest: in_set_butlastD)
    have ch1: "map g_children (g_children ?grp1) = map g_children ?ls"
    proof -
      have "map g_children (butlast ?ls @ [touch l]) = map g_children (butlast ?ls @ [l])"
        using ok by simp
      then show ?thesis by (simp only: snoc) simp
    qed
    have lig: "line_in_group th ?nl ?grp1 =
        Inr (\<bar>ny - gy\<bar> \<le> th KGroup, touch ?nl,
             \<lparr>g_children = map touch (g_children ?grp1), g_bounds = Some gb\<rparr>)"
    proof -
      have nb1: "line_box (g_children ?nl) = Inr nb" by (simp only: nlc nb)
      have none1: "g_bounds ?grp1 = None" using none by simp
      have gb1: "group_box (map g_children (g_children ?grp1)) = Inr gb" by (simp only: ch1 gb)
      show ?thesis by (rule line_in_group_eval [OF nlok nb1 ny none1 oks1 gb1 gy])
    qed
    let ?grp2 = "\<lparr>g_children = map touch (g_children ?grp1), g_bounds = Some gb\<rparr> :: line_group"
    have tnl: "g_children (touch ?nl) = [w]" "line_ok (touch ?nl)"
      using nlok nlc touch_ok by simp_all
    have ch2: "map g_children (g_children ?grp2) = map g_children ?ls"
    proof -
      have "map g_children (g_children ?grp2) = map g_children (map touch (g_children ?grp1))"
        by simp
      also have "\<dots> = map g_children (g_children ?grp1)"
        by (rule map_touch_children [OF oks1])
      also have "\<dots> = map g_children ?ls" by (rule ch1)
      finally show ?thesis .
    qed
    have oks2: "\<forall>l \<in> set (g_children ?grp2). g_children l \<noteq> [] \<and> line_ok l"
    proof
      fix x assume "x \<in> set (g_children ?grp2)"
      then obtain y where y: "y \<in> set (g_children ?grp1)" and x: "x = touch y" by auto
      from y oks1 have oky: "line_ok y" by blast
      from y have "y \<in> set (butlast ?ls) \<or> y = touch l" by auto
      then have "g_children y \<noteq> []"
        using oks ok wne by (auto dest: in_set_butlastD)
      with oky x touch_ok show "g_children x \<noteq> [] \<and> line_ok x" by simp
    qed
    show ?thesis
    proof (cases "\<bar>ny - gy\<bar> \<le> th KGroup")
      case True
      let ?gs' = "butlast gs @ [add_child ?grp2 (touch ?nl)]"
      have ligT: "line_in_group th ?nl ?grp1 = Inr (True, touch ?nl, ?grp2)"
        using lig True by simp
      have step: "group_step th w gs = Inr ?gs'"
        using ne lne by (simp add: group_step_def Let_def wilF l [symmetric] ligT)
      have inv': "step_inv ?gs'"
        using oks2 tnl by (auto simp: step_inv_def add_child_def reset_bounds_def)
      have c2: "map g_children (g_children (add_child ?grp2 (touch ?nl))) =
          map g_children ?ls @ [[w]]"
        using ch2 tnl by (simp add: add_child_def reset_bounds_def)
      have "words_of ?gs' = butlast (words_of gs) @ [map g_children ?ls @ [[w]]]"
        by (simp only: words_of_snoc words_of_butlast c2)
      then have "words_of ?gs' = into_last_group (words_of gs) w"
        by (simp only: into_last_group_def lastw)
      with step inv' False True show ?thesis by auto
    next
      case far: False
      let ?gs' = "butlast gs @ [?grp2] @ [add_child new_grouped (touch ?nl)]"
      have ligF: "line_in_group th ?nl ?grp1 = Inr (False, touch ?nl, ?grp2)"
        using lig far by simp
      have step: "group_step th w gs = Inr ?gs'"
        using ne lne by (simp add: group_step_def Let_def wilF l [symmetric] ligF)
      have inv': "step_inv ?gs'"
        using tnl by (auto simp: step_inv_def add_child_def reset_bounds_def new_grouped_def)
      have c3: "map g_children (g_children (add_child new_grouped (touch ?nl))) = [[w]]"
        using tnl by (simp add: add_child_def reset_bounds_def new_grouped_def)
      have "words_of ?gs' = butlast (words_of gs) @ [map g_children ?ls] @ [[[w]]]"
        by (simp only: words_of_snoc2 words_of_butlast ch2 c3)
      also have "\<dots> = words_of gs @ [[[w]]]"
        using words_of_split [OF ne] by simp
      finally have "words_of ?gs' = as_new_group (words_of gs) w"
        by (simp add: as_new_group_def)
      with step inv' False far show ?thesis by auto
    qed
  qed
qed

lemma do_trim_line_words_Some:
  "do_trim_line_words (Some p) ws = Inr (rev (dropWhile (\<lambda>w. p (text w)) (rev ws)))"
proof (induction ws rule: rev_induct)
  case Nil
  show ?case by (subst do_trim_line_words.simps) simp
next
  case (snoc w ws)
  show ?case
    by (subst do_trim_line_words.simps) (simp add: fullmatch_def snoc)
qed

lemma trim_line_Some:
  "trim_line (Some p) l =
     Inr \<lparr>g_children = trim_both (\<lambda>w. p (text w)) (g_children l),
          g_bounds = (if g_children l = [] then g_bounds l else None)\<rparr>"
proof (cases "g_children l = []")
  case True
  then show ?thesis by (simp add: trim_line_def is_empty_def trim_both_def)
next
  case False
  show ?thesis
  proof (cases "dropWhile (\<lambda>w. p (text w)) (g_children l) = []")
    case True
    have "trim_line (Some p) l = Inr \<lparr>g_children = [], g_bounds = None\<rparr>"
      using False by (simp add: trim_line_def is_empty_def do_trim_line_words_Some Let_def True
          reset_bounds_def del: dropWhile_eq_Nil_conv)
    with False True show ?thesis by (simp add: trim_both_def del: dropWhile_eq_Nil_conv)
  next
    case ne: False
    with False show ?thesis
      by (simp add: trim_line_def is_empty_def do_trim_line_words_Some Let_def trim_both_def
          reset_bounds_def del: dropWhile_eq_Nil_conv)
  qed
qed

lemma words_to_remove_Some:
  "words_to_remove (Some p) matched ws = Inr (marks (\<lambda>w. p (text w)) matched ws)"
  by (induction ws arbitrary: matched) (simp_all add: fullmatch_def)

lemma remove_marked_Cons:
  "remove_marked (x # xs) (m # ms) = (if m then remove_marked xs ms else x # remove_marked xs ms)"
  by (simp add: remove_marked_def)

lemma remove_marked_Nil [simp]: "remove_marked [] ms = []"
  by (simp add: remove_marked_def)

lemma collapse_runs_Cons:
  "collapse_runs q (v # ws) = v # remove_marked ws (marks q (q v) ws)"
proof (induction ws arbitrary: v)
  case Nil
  show ?case by simp
next
  case (Cons w ws)
  show ?case
  proof (cases "q v \<and> q w")
    case True
    then show ?thesis using Cons [of v] by (simp add: remove_marked_Cons)
  next
    case False
    then show ?thesis using Cons [of w] by (auto simp: remove_marked_Cons)
  qed
qed

lemma collapse_runs_marks: "remove_marked ws (marks q False ws) = collapse_runs q ws"
proof (cases ws)
  case Nil
  then show ?thesis by simp
next
  case (Cons w ws')
  then show ?thesis by (simp add: collapse_runs_Cons remove_marked_Cons)
qed

lemma clean_line_Some:
  "\<exists>l'. clean_line (Some p) l = Inr (l', g_children l' = []) \<and>
        g_children l' = collapse_runs (\<lambda>w. p (text w)) (trim_both (\<lambda>w. p (text w)) (g_children l))"
proof (cases "g_children l = []")
  case True
  then show ?thesis by (simp add: clean_line_def is_empty_def trim_both_def)
next
  case False
  then show ?thesis
    by (simp add: clean_line_def is_empty_def trim_line_Some words_to_remove_Some Let_def
        collapse_runs_marks reset_bounds_def)
qed

lemma remove_marked_map:
  "remove_marked (map f rs) (map g rs) = map f (filter (\<lambda>r. \<not> g r) rs)"
  by (induction rs) (simp_all add: remove_marked_Cons)

lemma each_witnessed:
  assumes "\<And>x. x \<in> set xs \<Longrightarrow> \<exists>y. f x = Inr y \<and> P x y"
  shows "\<exists>ys. each f xs = Inr ys \<and> list_all2 P xs ys"
  using assms
proof (induction xs)
  case Nil
  then show ?case by simp
next
  case (Cons x xs)
  from Cons.prems [of x] obtain y where y: "f x = Inr y" "P x y" by auto
  from Cons.IH Cons.prems obtain ys where ys: "each f xs = Inr ys" "list_all2 P xs ys"
    by auto
  from y ys show ?case by simp
qed

lemma clean_group_Some:
  "\<exists>g'. clean_group (Some p) g = Inr (g', g_children g' = []) \<and>
        map g_children (g_children g') =
          filter (\<lambda>l. l \<noteq> [])
            (map (\<lambda>l. collapse_runs (\<lambda>w. p (text w)) (trim_both (\<lambda>w. p (text w)) l))
               (map g_children (g_children g)))"
proof -
  let ?c = "\<lambda>l. collapse_runs (\<lambda>w. p (text w)) (trim_both (\<lambda>w. p (text w)) l)"
  let ?P = "\<lambda>l r. snd r = (g_children (fst r) = []) \<and> g_children (fst r) = ?c (g_children l)"
  have "\<exists>rs. each (clean_line (Some p)) (g_children g) = Inr rs \<and> list_all2 ?P (g_children g) rs"
  proof (rule each_witnessed)
    fix l
    from clean_line_Some [of p l] obtain l' where
      "clean_line (Some p) l = Inr (l', g_children l' = [])" "g_children l' = ?c (g_children l)"
      by blast
    then show "\<exists>y. clean_line (Some p) l = Inr y \<and> ?P l y" by simp
  qed
  then obtain rs where rs: "each (clean_line (Some p)) (g_children g) = Inr rs"
    and all: "list_all2 ?P (g_children g) rs" by blast
  have snd_eq: "map snd rs = map (\<lambda>r. g_children (fst r) = []) rs"
    using all by (induction rule: list_all2_induct) simp_all
  have ch: "map (\<lambda>r. g_children (fst r)) rs = map ?c (map g_children (g_children g))"
    using all by (induction rule: list_all2_induct) simp_all
  have rm: "remove_marked (map fst rs) (map snd rs) = map fst (filter (\<lambda>r. g_children (fst r) \<noteq> []) rs)"
    unfolding snd_eq by (rule remove_marked_map)
  have "map g_children (map fst (filter (\<lambda>r. g_children (fst r) \<noteq> []) rs)) =
      filter (\<lambda>l. l \<noteq> []) (map (\<lambda>r. g_children (fst r)) rs)"
    by (simp add: filter_map o_def)
  then have "map g_children (remove_marked (map fst rs) (map snd rs)) =
      filter (\<lambda>l. l \<noteq> []) (map ?c (map g_children (g_children g)))"
    by (simp only: rm ch)
  then show ?thesis
    by (simp add: clean_group_def rs Let_def reset_bounds_def is_empty_def)
qed

lemma clean_words_Some:
  "\<exists>gs'. clean_words (Some p) gs = Inr gs' \<and> words_of gs' = cleaned p (words_of gs)"
proof -
  let ?c = "\<lambda>l. collapse_runs (\<lambda>w. p (text w)) (trim_both (\<lambda>w. p (text w)) l)"
  let ?d = "\<lambda>wss. filter (\<lambda>l. l \<noteq> []) (map ?c wss)"
  let ?W = "\<lambda>g. map g_children (g_children g)"
  let ?P = "\<lambda>g r. snd r = (g_children (fst r) = []) \<and> ?W (fst r) = ?d (?W g)"
  have "\<exists>rs. each (clean_group (Some p)) gs = Inr rs \<and> list_all2 ?P gs rs"
  proof (rule each_witnessed)
    fix g
    from clean_group_Some [of p g] obtain g' where
      "clean_group (Some p) g = Inr (g', g_children g' = [])" "?W g' = ?d (?W g)"
      by blast
    then show "\<exists>y. clean_group (Some p) g = Inr y \<and> ?P g y" by simp
  qed
  then obtain rs where rs: "each (clean_group (Some p)) gs = Inr rs"
    and all: "list_all2 ?P gs rs" by blast
  have snd_eq: "map snd rs = map (\<lambda>r. g_children (fst r) = []) rs"
    using all by (induction rule: list_all2_induct) simp_all
  have ch: "map (\<lambda>r. ?W (fst r)) rs = map ?d (map ?W gs)"
    using all by (induction rule: list_all2_induct) simp_all
  have rm: "remove_marked (map fst rs) (map snd rs) = map fst (filter (\<lambda>r. g_children (fst r) \<noteq> []) rs)"
    unfolding snd_eq by (rule remove_marked_map)
  have "map ?W (map fst (filter (\<lambda>r. g_children (fst r) \<noteq> []) rs)) =
      filter (\<lambda>g. g \<noteq> []) (map (\<lambda>r. ?W (fst r)) rs)"
    by (simp add: filter_map o_def)
  then have "map ?W (remove_marked (map fst rs) (map snd rs)) =
      filter (\<lambda>g. g \<noteq> []) (map ?d (map ?W gs))"
    by (simp only: rm ch)
  then have "words_of (remove_marked (map fst rs) (map snd rs)) = cleaned p (words_of gs)"
    by (simp add: words_of_def cleaned_def o_def)
  then show ?thesis by (simp add: clean_words_def rs)
qed

lemma step_values:
  assumes inv: "step_inv gs"
  shows "\<exists>b nb gb lc wc lh wh wx lx ny gy.
      line_box (g_children (last (g_children (last gs)))) = Inr b \<and>
      element_center b = Inr lc \<and> element_center (wbox w) = Inr wc \<and>
      element_height b = Inr lh \<and> element_height (wbox w) = Inr wh \<and>
      element_min_x (wbox w) = Inr wx \<and> element_max_x b = Inr lx \<and>
      line_box [w] = Inr nb \<and> element_min_y nb = Inr ny \<and>
      group_box (map g_children (g_children (last gs))) = Inr gb \<and> element_max_y gb = Inr gy"
proof -
  from inv have lne: "g_children (last gs) \<noteq> []"
    and oks: "\<forall>l \<in> set (g_children (last gs)). g_children l \<noteq> [] \<and> line_ok l"
    by (simp_all add: step_inv_def)
  have "last (g_children (last gs)) \<in> set (g_children (last gs))" using lne by simp
  with oks have "g_children (last (g_children (last gs))) \<noteq> []" by blast
  from line_box_num [OF this] obtain b where
    b: "line_box (g_children (last (g_children (last gs)))) = Inr b" "numeric b" by blast
  from line_box_num [of "[w]"] obtain nb where nb: "line_box [w] = Inr nb" "numeric nb" by auto
  have "\<exists>gb. group_box (map g_children (g_children (last gs))) = Inr gb \<and> numeric gb"
    using lne oks by (intro group_box_num) auto
  then obtain gb where gb: "group_box (map g_children (g_children (last gs))) = Inr gb" "numeric gb"
    by blast
  from element_num2 [OF b(2)] element_num [OF b(2)] obtain lc lh lx where
    "element_center b = Inr lc" "element_height b = Inr lh" "element_max_x b = Inr lx" by blast
  moreover from element_num2 [OF numeric_wbox [of w]] element_num [OF numeric_wbox [of w]]
  obtain wc wh wx where
    "element_center (wbox w) = Inr wc" "element_height (wbox w) = Inr wh"
    "element_min_x (wbox w) = Inr wx" by blast
  moreover from element_num [OF nb(2)] obtain ny where "element_min_y nb = Inr ny" by blast
  moreover from element_num [OF gb(2)] obtain gy where "element_max_y gb = Inr gy" by blast
  ultimately show ?thesis using b(1) nb(1) gb(1) by blast
qed

lemma group_step_slope_fails:
  assumes inv: "step_inv gs"
    and lb: "line_box (g_children (last (g_children (last gs)))) = Inr b"
    and lc: "element_center b = Inr lc" and wc: "element_center (wbox w) = Inr wc"
    and lh: "element_height b = Inr lh" and wh: "element_height (wbox w) = Inr wh"
    and wx: "element_min_x (wbox w) = Inr wx" and lx: "element_max_x b = Inr lx"
    and s: "slope lc wc = Inl e"
  shows "group_step th w gs = Inl e"
proof -
  let ?l = "last (g_children (last gs))"
  from inv have ne: "gs \<noteq> []" and lne: "g_children (last gs) \<noteq> []"
    and oks: "\<forall>l \<in> set (g_children (last gs)). g_children l \<noteq> [] \<and> line_ok l"
    by (simp_all add: step_inv_def)
  have "?l \<in> set (g_children (last gs))" using lne by simp
  with oks have ok: "line_ok ?l" by blast
  have "word_in_line th w ?l = Inl e"
    by (simp add: word_in_line_eval [OF ok lb lc wc lh wh wx lx] s)
  then show ?thesis using ne lne by (simp add: group_step_def Let_def)
qed

lemma group_step_explicit:
  assumes inv: "step_inv gs"
  shows "\<exists>lc wc lh wh wx lx ny gy.
      line_property element_center (last (last (words_of gs))) = Inr lc \<and>
      word_property element_center w = Inr wc \<and>
      line_property element_height (last (last (words_of gs))) = Inr lh \<and>
      word_property element_height w = Inr wh \<and>
      word_property element_min_x w = Inr wx \<and>
      line_property element_max_x (last (last (words_of gs))) = Inr lx \<and>
      line_property element_min_y [w] = Inr ny \<and>
      group_property element_max_y (last (words_of gs)) = Inr gy \<and>
      map_sum id words_of (group_step th w gs) =
        (case slope lc wc of
           Inl e \<Rightarrow> Inl e
         | Inr s \<Rightarrow>
             Inr (if s \<le> th KLineSlope \<and> \<bar>wh - lh\<bar> \<le> th KHeight \<and> \<bar>wx - lx\<bar> < th KWord
                  then into_last_line (words_of gs) w
                  else if \<bar>ny - gy\<bar> \<le> th KGroup then into_last_group (words_of gs) w
                  else as_new_group (words_of gs) w)) \<and>
      (\<forall>gs'. group_step th w gs = Inr gs' \<longrightarrow> step_inv gs')"
proof -
  from step_values [OF inv, of w] obtain b nb gb lc wc lh wh wx lx ny gy where
      lb: "line_box (g_children (last (g_children (last gs)))) = Inr b" and
      lc: "element_center b = Inr lc" and wc: "element_center (wbox w) = Inr wc" and
      lh: "element_height b = Inr lh" and wh: "element_height (wbox w) = Inr wh" and
      wx: "element_min_x (wbox w) = Inr wx" and lx: "element_max_x b = Inr lx" and
      nb: "line_box [w] = Inr nb" and ny: "element_min_y nb = Inr ny" and
      gb: "group_box (map g_children (g_children (last gs))) = Inr gb" and
      gy: "element_max_y gb = Inr gy"
    by blast
  from inv have ne: "gs \<noteq> []" and lne: "g_children (last gs) \<noteq> []"
    by (simp_all add: step_inv_def)
  have lw: "last (words_of gs) = map g_children (g_children (last gs))"
    using ne by (rule last_words_of)
  have llw: "last (last (words_of gs)) = g_children (last (g_children (last gs)))"
    unfolding lw using lne by (simp add: last_map)
  have p1: "line_property p (last (last (words_of gs))) = p b" for p :: "box \<Rightarrow> error + 'v"
    by (simp only: llw line_property_def lb rbind_Inr)
  have p2: "group_property p (last (words_of gs)) = p gb" for p :: "box \<Rightarrow> error + 'v"
    by (simp only: lw group_property_def gb rbind_Inr)
  have p3: "line_property p [w] = p nb" for p :: "box \<Rightarrow> error + 'v"
    by (simp only: line_property_def nb rbind_Inr)
  have props:
    "line_property element_center (last (last (words_of gs))) = Inr lc"
    "word_property element_center w = Inr wc"
    "line_property element_height (last (last (words_of gs))) = Inr lh"
    "word_property element_height w = Inr wh"
    "word_property element_min_x w = Inr wx"
    "line_property element_max_x (last (last (words_of gs))) = Inr lx"
    "line_property element_min_y [w] = Inr ny"
    "group_property element_max_y (last (words_of gs)) = Inr gy"
    by (simp_all only: p1 p2 p3 word_property_def lc wc lh wh wx lx ny gy)
  have step: "map_sum id words_of (group_step th w gs) =
        (case slope lc wc of
           Inl e \<Rightarrow> Inl e
         | Inr s \<Rightarrow>
             Inr (if s \<le> th KLineSlope \<and> \<bar>wh - lh\<bar> \<le> th KHeight \<and> \<bar>wx - lx\<bar> < th KWord
                  then into_last_line (words_of gs) w
                  else if \<bar>ny - gy\<bar> \<le> th KGroup then into_last_group (words_of gs) w
                  else as_new_group (words_of gs) w)) \<and>
      (\<forall>gs'. group_step th w gs = Inr gs' \<longrightarrow> step_inv gs')"
  proof (cases "slope lc wc")
    case (Inl e)
    from group_step_slope_fails [OF inv lb lc wc lh wh wx lx Inl]
    show ?thesis by (simp add: Inl)
  next
    case (Inr s)
    from group_step_eval [OF inv refl lb lc wc lh wh wx lx nb ny gb gy Inr, of th]
    show ?thesis by (auto simp: Inr)
  qed
  from props step show ?thesis by blast
qed

lemma group_step_words:
  assumes inv: "step_inv gs"
  shows "map_sum id words_of (group_step th w gs) = spec_step th (words_of gs) w"
proof -
  from group_step_explicit [OF inv, of w th] obtain lc wc lh wh wx lx ny gy where
    props:
      "line_property element_center (last (last (words_of gs))) = Inr lc"
      "word_property element_center w = Inr wc"
      "line_property element_height (last (last (words_of gs))) = Inr lh"
      "word_property element_height w = Inr wh"
      "word_property element_min_x w = Inr wx"
      "line_property element_max_x (last (last (words_of gs))) = Inr lx"
      "line_property element_min_y [w] = Inr ny"
      "group_property element_max_y (last (words_of gs)) = Inr gy"
    and step: "map_sum id words_of (group_step th w gs) =
        (case slope lc wc of
           Inl e \<Rightarrow> Inl e
         | Inr s \<Rightarrow>
             Inr (if s \<le> th KLineSlope \<and> \<bar>wh - lh\<bar> \<le> th KHeight \<and> \<bar>wx - lx\<bar> < th KWord
                  then into_last_line (words_of gs) w
                  else if \<bar>ny - gy\<bar> \<le> th KGroup then into_last_group (words_of gs) w
                  else as_new_group (words_of gs) w))"
    by blast
  show ?thesis
    unfolding step
    by (cases "slope lc wc") (simp_all only: spec_step_def props rbind_Inr rbind_Inl sum.case)
qed

lemma init_Cons:
  "init pw ph (w0 # rest) ignore thr =
     Inr \<lparr>page_width = pw, page_height = ph, words = rest, ignore_regex = ignore,
          proximity_thresholds = updated_thresholds thr,
          line_groups = [add_child new_grouped (add_child new_grouped w0)]\<rparr>"
  by (simp add: init_def Let_def)

lemma init_inv:
  "step_inv [add_child new_grouped (add_child new_grouped w0)] \<and>
   words_of [add_child new_grouped (add_child new_grouped w0)] = [[[w0]]]"
  by (simp add: step_inv_def words_of_def add_child_def new_grouped_def reset_bounds_def line_ok_def)

lemma group_loop_inv:
  "step_inv gs \<Longrightarrow> group_loop th gs ws = Inr gs' \<Longrightarrow> step_inv gs'"
proof (induction ws arbitrary: gs)
  case Nil
  then show ?case by simp
next
  case (Cons w ws)
  from Cons.prems(2) obtain gs1 where s1: "group_step th w gs = Inr gs1"
    and l1: "group_loop th gs1 ws = Inr gs'"
    by (cases "group_step th w gs") simp_all
  from group_step_explicit [OF Cons.prems(1), of w th] s1 have "step_inv gs1" by blast
  from Cons.IH [OF this l1] show ?case .
qed

lemma group_loop_returns:
  "step_inv gs \<Longrightarrow> slopes_defined th (words_of gs) ws \<Longrightarrow> \<exists>gs'. group_loop th gs ws = Inr gs'"
proof (induction ws arbitrary: gs)
  case Nil
  then show ?case by simp
next
  case (Cons w ws)
  from group_step_explicit [OF Cons.prems(1), of w th] obtain lc wc where
    lc: "line_property element_center (last (last (words_of gs))) = Inr lc" and
    wc: "word_property element_center w = Inr wc" and
    cases: "\<And>e. slope lc wc = Inl e \<Longrightarrow> map_sum id words_of (group_step th w gs) = Inl e" and
    inv': "\<And>gs'. group_step th w gs = Inr gs' \<Longrightarrow> step_inv gs'"
    by auto
  from Cons.prems(2) lc wc have "lc = wc \<or> fst lc \<noteq> fst wc" by simp
  then have "\<exists>s. slope lc wc = Inr s" by (cases "lc = wc") (simp_all add: slope_def)
  then obtain s where s: "slope lc wc = Inr s" by blast
  have "\<exists>gs1. group_step th w gs = Inr gs1"
  proof (cases "group_step th w gs")
    case (Inl e)
    with group_step_explicit [OF Cons.prems(1), of w th] lc wc s show ?thesis by auto
  next
    case (Inr gs1)
    then show ?thesis by simp
  qed
  then obtain gs1 where s1: "group_step th w gs = Inr gs1" by blast
  have "spec_step th (words_of gs) w = Inr (words_of gs1)"
    using group_step_words [OF Cons.prems(1), of th w] s1 by simp
  with Cons.prems(2) have sd: "slopes_defined th (words_of gs1) ws" by simp
  from Cons.IH [OF inv' [OF s1] sd] s1 show ?case by simp
qed

subsection \<open>Elements without children\<close>

lemma grouped_bounds_empty:
  assumes "g_children self = []" and "g_bounds self = None \<or> g_bounds self = Some none_box"
  shows "grouped_bounds cb self = Inr (none_box, self\<lparr>g_bounds := Some none_box\<rparr>)"
  using assms
  by (cases self) (auto simp: grouped_bounds_def none_box_def list_min_def list_max_def Let_def)

lemma none_box_extent:
  "element_height none_box = Inl TypeError" "element_width none_box = Inl TypeError"
  by (simp_all add: element_height_def element_width_def element_max_y_def element_max_x_def
      y_coordinates_def x_coordinates_def coordinates_def sorted_py_def none_box_def)

text \<open>
  Claim C8, as stated, fails: the bounds of a new Line and of a new LineGroup are read
  without an error, as the box of four vertices with None coordinates.
\<close>

theorem empty_bounds_counterexample:
  "line_bounds new_grouped =
     Inr ([(None, None), (None, None), (None, None), (None, None)],
          \<lparr>g_children = [],
           g_bounds = Some [(None, None), (None, None), (None, None), (None, None)]\<rparr>)
   \<and> group_bounds new_grouped =
     Inr ([(None, None), (None, None), (None, None), (None, None)],
          \<lparr>g_children = [],
           g_bounds = Some [(None, None), (None, None), (None, None), (None, None)]\<rparr>)"
  by (simp add: line_bounds_def group_bounds_def grouped_bounds_def new_grouped_def
      list_min_def list_max_def Let_def)

text \<open>
  Claim C8, amended. For a Line and a LineGroup without children whose cache is unset or
  holds the bounds read from no children, reading the height or the width raises
  TypeError, while reading the bounds returns, and caches, the box of four vertices with
  None coordinates.
\<close>

theorem empty_element_reads:
  assumes "g_children l = []" and "g_bounds l = None \<or> g_bounds l = Some none_box"
    and "g_children g = []" and "g_bounds g = None \<or> g_bounds g = Some none_box"
  shows "line_bounds l = Inr (none_box, l\<lparr>g_bounds := Some none_box\<rparr>) \<and>
         read line_bounds element_height l = Inl TypeError \<and>
         read line_bounds element_width l = Inl TypeError \<and>
         group_bounds g = Inr (none_box, g\<lparr>g_bounds := Some none_box\<rparr>) \<and>
         read group_bounds element_height g = Inl TypeError \<and>
         read group_bounds element_width g = Inl TypeError"
proof -
  have l: "line_bounds l = Inr (none_box, l\<lparr>g_bounds := Some none_box\<rparr>)"
    unfolding line_bounds_def using assms(1,2) by (rule grouped_bounds_empty)
  have g: "group_bounds g = Inr (none_box, g\<lparr>g_bounds := Some none_box\<rparr>)"
    unfolding group_bounds_def using assms(3,4) by (rule grouped_bounds_empty)
  show ?thesis by (simp add: l g read_def none_box_extent)
qed

theorem empty_element_reads_witness:
  "read line_bounds element_height new_grouped = Inl TypeError \<and>
   read line_bounds element_width new_grouped = Inl TypeError \<and>
   read group_bounds element_height new_grouped = Inl TypeError \<and>
   read group_bounds element_width new_grouped = Inl TypeError"
proof -
  have c: "g_children (new_grouped :: 'c grouped) = []"
    and b: "g_bounds (new_grouped :: 'c grouped) = None \<or> g_bounds (new_grouped :: 'c grouped) = Some none_box"
    by (simp_all add: new_grouped_def)
  from empty_element_reads [OF c b c b] show ?thesis by simp
qed

subsection \<open>The cleanup pass\<close>

text \<open>
  Claim C1, as stated, fails: in a line of four words of which the second and the third
  are dots, the run of two dots is not at an end of the line, and the second dot is
  removed.
\<close>

theorem interior_run_collapsed_counterexample:
  "map_sum id texts_of
     (grouped_words 100 100
        [example_word ''Introduction'' 0 0 40 10, example_word ''.'' 45 0 50 10,
         example_word ''.'' 55 0 60 10, example_word ''5'' 65 0 70 10]
        (Some GROUP_IGNORE) None)
   = Inr [[[''Introduction'', ''.'', ''5'']]]"
  by code_simp

text \<open>
  Claim C1, amended. With an ignore pattern, the cleanup pass returns, and for every
  group and every line: the ignorable words are dropped from both ends up to the first
  word at each end that does not match; in what remains, every run of consecutive
  ignorable words is reduced to its first word; the lines left without words are removed
  from their group and the groups left without lines from the output, the order of all
  that stays being kept.
\<close>

theorem clean_words_trims_and_collapses:
  "\<exists>gs'. clean_words (Some p) gs = Inr gs' \<and> words_of gs' = cleaned p (words_of gs)"
  by (rule clean_words_Some)

subsection \<open>The grouping loop\<close>



subsection \<open>The whole computation\<close>




end
